theory Spec2Isabelle
  imports Main
begin

section \<open>Strings and character classes\<close>

text \<open>
  A line of the document is a \<open>string\<close>: the list of its code units, restricted to the
  code units below 256. The classes below are the ones the regular expressions of the
  editor use: \<open>\s\<close> (tab, line feed, vertical tab, form feed, carriage return, space,
  no-break space), \<open>\d\<close>, \<open>\w\<close>, \<open>[0-9A-Fa-f]\<close> and \<open>.\<close> (anything but a line
  terminator).
\<close>

definition is_space :: "char \<Rightarrow> bool" where
  "is_space ch \<longleftrightarrow>
     ch \<in> set [CHR 0x09, CHR 0x0A, CHR 0x0B, CHR 0x0C, CHR 0x0D, CHR 0x20, CHR 0xA0]"

definition is_digit :: "char \<Rightarrow> bool" where
  "is_digit ch \<longleftrightarrow> ch \<in> set ''0123456789''"

definition is_word :: "char \<Rightarrow> bool" where
  "is_word ch \<longleftrightarrow>
     ch \<in> set ''abcdefghijklmnopqrstuvwxyzABCDEFGHIJKLMNOPQRSTUVWXYZ0123456789_''"

definition is_hex :: "char \<Rightarrow> bool" where
  "is_hex ch \<longleftrightarrow> ch \<in> set ''0123456789ABCDEFabcdef''"

definition is_dot :: "char \<Rightarrow> bool" where
  "is_dot ch \<longleftrightarrow> ch \<noteq> CHR 0x0A \<and> ch \<noteq> CHR 0x0D"

definition is_bullet :: "char \<Rightarrow> bool" where
  "is_bullet ch \<longleftrightarrow> ch \<in> set ''-*+''"

definition is_status :: "char \<Rightarrow> bool" where
  "is_status ch \<longleftrightarrow> ch \<in> set '' x/''"

definition is_tagchar :: "char \<Rightarrow> bool" where
  "is_tagchar ch \<longleftrightarrow> is_word ch \<or> ch = CHR ''-''"

definition is_abc :: "char \<Rightarrow> bool" where
  "is_abc ch \<longleftrightarrow> ch \<in> set ''abc''"

text \<open>\<open>String.prototype.trim\<close>, \<open>includes\<close>, \<open>endsWith\<close> and \<open>Array.prototype.join\<close>.\<close>

definition trim :: "string \<Rightarrow> string" where
  "trim s = rev (dropWhile is_space (rev (dropWhile is_space s)))"

fun str_includes :: "string \<Rightarrow> string \<Rightarrow> bool" where
  "str_includes [] w \<longleftrightarrow> w = []"
| "str_includes (x # xs) w \<longleftrightarrow> take (length w) (x # xs) = w \<or> str_includes xs w"

definition endsWith :: "string \<Rightarrow> string \<Rightarrow> bool" where
  "endsWith s w \<longleftrightarrow> length w \<le> length s \<and> drop (length s - length w) s = w"

fun join :: "string \<Rightarrow> string list \<Rightarrow> string" where
  "join sep [] = []"
| "join sep [x] = x"
| "join sep (x # y # ys) = x @ sep @ join sep (y # ys)"

section \<open>A backtracking matcher for the regular expressions of the source\<close>

text \<open>
  A matcher state is the text already consumed (from the start of the subject string),
  the text still ahead, and the capture groups closed so far (latest first). A regular
  expression maps a state to the list of states it can end in, in the order in which a
  backtracking matcher tries them: the head of the list is the match that JavaScript
  reports.
\<close>

type_synonym captures = "(nat \<times> string) list"
type_synonym mstate = "string \<times> string \<times> captures"
type_synonym rx = "mstate \<Rightarrow> mstate list"

fun one :: "(char \<Rightarrow> bool) \<Rightarrow> rx" where
  "one P (d, [], c) = []"
| "one P (d, x # xs, c) = (if P x then [(d @ [x], xs, c)] else [])"

definition chr :: "char \<Rightarrow> rx" where
  "chr a = one (\<lambda>x. x = a)"

fun cat :: "rx list \<Rightarrow> rx" where
  "cat [] st = [st]"
| "cat (r # rs) st = concat (map (cat rs) (r st))"

definition lit :: "string \<Rightarrow> rx" where
  "lit w = cat (map chr w)"

text \<open>Greedy \<open>*\<close> over a character class: the longest run first.\<close>

fun star :: "(char \<Rightarrow> bool) \<Rightarrow> rx" where
  "star P (d, [], c) = [(d, [], c)]"
| "star P (d, x # xs, c) =
     (if P x then star P (d @ [x], xs, c) else []) @ [(d, x # xs, c)]"

text \<open>Lazy \<open>*?\<close> over a character class: the shortest run first.\<close>

fun star_lazy :: "(char \<Rightarrow> bool) \<Rightarrow> rx" where
  "star_lazy P (d, [], c) = [(d, [], c)]"
| "star_lazy P (d, x # xs, c) =
     (d, x # xs, c) # (if P x then star_lazy P (d @ [x], xs, c) else [])"

definition plus :: "(char \<Rightarrow> bool) \<Rightarrow> rx" where
  "plus P = cat [one P, star P]"

text \<open>Greedy \<open>?\<close>, \<open>{n}\<close> and \<open>{lo,hi}\<close>.\<close>

definition opt :: "rx \<Rightarrow> rx" where
  "opt r st = r st @ [st]"

primrec times :: "nat \<Rightarrow> rx \<Rightarrow> rx" where
  "times 0 r = cat []"
| "times (Suc n) r = cat [r, times n r]"

primrec upto_times :: "nat \<Rightarrow> rx \<Rightarrow> rx" where
  "upto_times 0 r = cat []"
| "upto_times (Suc n) r = opt (cat [r, upto_times n r])"

definition rep :: "nat \<Rightarrow> nat \<Rightarrow> rx \<Rightarrow> rx" where
  "rep lo hi r = cat [times lo r, upto_times (hi - lo) r]"

text \<open>A capture group records the text its body consumed.\<close>

fun grp :: "nat \<Rightarrow> rx \<Rightarrow> rx" where
  "grp k r (d, t, c) =
     map (\<lambda>(d', t', c'). (d', t', (k, drop (length d) d') # c')) (r (d, t, c))"

text \<open>The assertions \<open>^\<close>, \<open>$\<close> (no multiline flag) and \<open>\b\<close>.\<close>

fun bol :: rx where
  "bol (d, t, c) = (if d = [] then [(d, t, c)] else [])"

fun eol :: rx where
  "eol (d, t, c) = (if t = [] then [(d, t, c)] else [])"

fun wordb :: rx where
  "wordb (d, t, c) =
     (if (d \<noteq> [] \<and> is_word (last d)) \<noteq> (t \<noteq> [] \<and> is_word (hd t)) then [(d, t, c)] else [])"

text \<open>
  The search tries every start position from the left and returns the text before the
  match together with the first end state found there.
\<close>

fun rx_search :: "rx \<Rightarrow> string \<Rightarrow> string \<Rightarrow> (string \<times> mstate) option" where
  "rx_search r d [] = (case r (d, [], []) of [] \<Rightarrow> None | st # _ \<Rightarrow> Some (d, st))"
| "rx_search r d (x # xs) =
     (case r (d, x # xs, []) of [] \<Rightarrow> rx_search r (d @ [x]) xs | st # _ \<Rightarrow> Some (d, st))"

text \<open>
  \<open>s.match(re)\<close> and \<open>re.test(s)\<close> without the \<open>g\<close> flag: the match array as an
  association list from group number to text, group 0 the whole match; a group that took
  no part has no entry (\<open>undefined\<close>).
\<close>

definition js_match :: "rx \<Rightarrow> string \<Rightarrow> captures option" where
  "js_match r s = (case rx_search r [] s of None \<Rightarrow> None
     | Some (d0, (d', t', c)) \<Rightarrow> Some ((0, drop (length d0) d') # c))"

definition js_test :: "rx \<Rightarrow> string \<Rightarrow> bool" where
  "js_test r s \<longleftrightarrow> js_match r s \<noteq> None"

definition cap :: "captures \<Rightarrow> nat \<Rightarrow> string option" where
  "cap m k = map_of m k"

text \<open>
  The text of a group that every match of its expression closes. (The groups read this
  way below are never optional, so the second case is never taken.)
\<close>

definition cap_text :: "captures \<Rightarrow> nat \<Rightarrow> string" where
  "cap_text m k = (case cap m k of Some s \<Rightarrow> s | None \<Rightarrow> [])"

text \<open>
  \<open>s.replace(re, f)\<close> without the \<open>g\<close> flag: the first match is replaced by what \<open>f\<close>
  returns for the match array; with no match the string is returned as it is.
\<close>

definition js_replace :: "rx \<Rightarrow> (captures \<Rightarrow> string) \<Rightarrow> string \<Rightarrow> string" where
  "js_replace r f s = (case rx_search r [] s of None \<Rightarrow> s
     | Some (d0, (d', t', c)) \<Rightarrow> d0 @ f ((0, drop (length d0) d') # c) @ t')"

text \<open>
  \<open>s.match(re)\<close> with the \<open>g\<close> flag: the texts of all matches, left to right, each search
  starting where the previous match ended (one code unit further after an empty match).
  The two length tests hold for every expression built from the matchers above; they
  are there for the recursion to be well-founded for an arbitrary function \<open>r\<close>.
\<close>

function match_all :: "rx \<Rightarrow> string \<Rightarrow> string \<Rightarrow> string list" where
  "match_all r d t = (case rx_search r d t of None \<Rightarrow> []
     | Some (d0, (d', t', c)) \<Rightarrow>
         (let m = drop (length d0) d' in
          if m \<noteq> [] \<and> length t' < length t then m # match_all r d' t'
          else (case t' of [] \<Rightarrow> [m]
                | x # xs \<Rightarrow> if length xs < length t then m # match_all r (d' @ [x]) xs else [m])))"
  by pat_completeness auto
termination
  by (relation "measure (\<lambda>(r, d, t). length t)") auto

definition js_match_all :: "rx \<Rightarrow> string \<Rightarrow> string list" where
  "js_match_all r s = match_all r [] s"


section \<open>The task list parser\<close>

text \<open>
  The editor holds the document as a list of lines; \<open>editor\<close> is \<open>None\<close> until the
  editor has been created. The text buffer of the editor breaks a text into lines at
  \<open>\r\n\<close>, \<open>\n\<close> and \<open>\r\<close>.
\<close>

type_synonym document = "string list"

fun getLinesContent_from :: "string \<Rightarrow> string \<Rightarrow> document" where
  "getLinesContent_from cur [] = [cur]"
| "getLinesContent_from cur (x # xs) =
     (if x = CHR 0x0A then cur # getLinesContent_from [] xs
      else if x = CHR 0x0D then
        (case xs of
           y # ys \<Rightarrow> if y = CHR 0x0A then cur # getLinesContent_from [] ys
                     else cur # getLinesContent_from [] xs
         | [] \<Rightarrow> cur # getLinesContent_from [] xs)
      else getLinesContent_from (cur @ [x]) xs)"

definition getLinesContent :: "string \<Rightarrow> document" where
  "getLinesContent text = getLinesContent_from [] text"

text \<open>The expressions of \<open>parseTasks\<close>, group by group as in the source:
  \<^verbatim>\<open>/^(#{1,3})\s+(.*?)(?:\s+(#[0-9A-Fa-f]{6}))?\s*$/\<close>,
  \<^verbatim>\<open>/^(\s*)[-*+]\s*\[([ x/])\]\s*(.*)$/\<close>,
  \<^verbatim>\<open>/\+[\w-]+/g\<close>,
  \<^verbatim>\<open>/\bdue:\d{4}-\d{2}-\d{2}\b/\<close>,
  \<^verbatim>\<open>/\bstart:\d{4}-\d{2}-\d{2}\b/\<close> and
  \<^verbatim>\<open>/\(([abc])\)/\<close>.\<close>

definition heading_re :: rx where
  "heading_re = cat [bol, grp 1 (rep 1 3 (chr CHR ''#'')), plus is_space,
     grp 2 (star_lazy is_dot),
     opt (cat [plus is_space, grp 3 (cat [chr CHR ''#'', times 6 (one is_hex)])]),
     star is_space, eol]"

definition task_re :: rx where
  "task_re = cat [bol, grp 1 (star is_space), one is_bullet, star is_space, chr CHR ''['',
     grp 2 (one is_status), chr CHR '']'', star is_space, grp 3 (star is_dot), eol]"

definition tag_re :: rx where
  "tag_re = cat [chr CHR ''+'', plus is_tagchar]"

definition date_re :: rx where
  "date_re = cat [times 4 (one is_digit), chr CHR ''-'', times 2 (one is_digit), chr CHR ''-'',
     times 2 (one is_digit)]"

definition due_b_re :: rx where
  "due_b_re = cat [wordb, lit ''due:'', date_re, wordb]"

definition start_b_re :: rx where
  "start_b_re = cat [wordb, lit ''start:'', date_re, wordb]"

definition prio_re :: rx where
  "prio_re = cat [chr CHR ''('', grp 1 (one is_abc), chr CHR '')'']"

record task =
  task_id :: string
  lineNumber :: nat
  status :: string
  task_text :: string
  heading :: "string option"
  color :: string
  tags :: string
  due :: "string option"
  start :: "string option"
  priority :: "string option"

text \<open>The decimal numeral of a line number, for the \<open>id\<close> field \<^verbatim>\<open>`ln-${i + 1}`\<close>.\<close>

fun decimal :: "nat \<Rightarrow> string" where
  "decimal n = (if n < 10 then [''0123456789'' ! n]
                else decimal (n div 10) @ [''0123456789'' ! (n mod 10)])"

declare decimal.simps [simp del]

text \<open>
  The state of the loop of \<open>parseTasks\<close>: the two trackers and the tasks pushed so far.
\<close>

record pstate =
  lastHeading :: "string option"
  lastColor :: string
  tasks :: "task list"

definition status_of :: "string option \<Rightarrow> string" where
  "status_of statusCh =
     (if statusCh = Some ''/'' then ''inprogress''
      else if statusCh = Some ''x'' then ''done''
      else ''backlog'')"

text \<open>The body of the loop for index \<open>i\<close> (the line is \<open>lines[i]\<close>).\<close>

definition parse_line :: "nat \<Rightarrow> string \<Rightarrow> pstate \<Rightarrow> pstate" where
  "parse_line i line st =
     (case js_match heading_re line of
        Some h \<Rightarrow>
          st\<lparr>lastHeading := Some (trim (cap_text h 2)),
             lastColor := (case cap h 3 of
                             Some c \<Rightarrow> if c \<noteq> [] then c else lastColor st
                           | None \<Rightarrow> lastColor st)\<rparr>
      | None \<Rightarrow>
          (case js_match task_re line of
             Some m \<Rightarrow>
               (let text = cap_text m 3 in
                st\<lparr>tasks := tasks st @
                  [\<lparr>task_id = ''ln-'' @ decimal (i + 1),
                    lineNumber = i + 1,
                    status = status_of (cap m 2),
                    task_text = text,
                    heading = lastHeading st,
                    color = (if lastColor st \<noteq> [] then lastColor st else ''#1976D2''),
                    tags = join '' '' (js_match_all tag_re text),
                    due = map_option (\<lambda>d. cap_text d 0) (js_match due_b_re text),
                    start = map_option (\<lambda>d. cap_text d 0) (js_match start_b_re text),
                    priority = (case js_match prio_re text of
                                  Some p \<Rightarrow> cap p 1 | None \<Rightarrow> None)\<rparr>]\<rparr>)
           | None \<Rightarrow> st))"

fun parse_loop :: "nat \<Rightarrow> string list \<Rightarrow> pstate \<Rightarrow> pstate" where
  "parse_loop i [] st = st"
| "parse_loop i (line # rest) st = parse_loop (Suc i) rest (parse_line i line st)"

definition parseTasks :: "document option \<Rightarrow> task list" where
  "parseTasks editor =
     (case editor of
        None \<Rightarrow> []
      | Some lines \<Rightarrow>
          tasks (parse_loop 0 lines
            \<lparr>lastHeading = None, lastColor = ''#1976D2'', tasks = []\<rparr>))"


section \<open>The line patchers\<close>

text \<open>
  \<open>toggleTaskStatus\<close> of the main editor replaces the line under the cursor by the
  result of \<^verbatim>\<open>line.replace(/^(\s*-\s*\[)([ x/])(\])/, ...)\<close>; the function below is the
  new line as a function of the old one.
\<close>

definition toggle_re :: rx where
  "toggle_re = cat [bol, grp 1 (cat [star is_space, chr CHR ''-'', star is_space, chr CHR ''['']),
     grp 2 (one is_status), grp 3 (chr CHR '']'')]"

definition toggleTaskStatus :: "string \<Rightarrow> string" where
  "toggleTaskStatus line =
     js_replace toggle_re
       (\<lambda>m. if cap m 2 = Some '' '' then cap_text m 1 @ ''/'' @ cap_text m 3
            else if cap m 2 = Some ''/'' then cap_text m 1 @ ''x'' @ cap_text m 3
            else cap_text m 1 @ '' '' @ cap_text m 3)
       line"

text \<open>
  \<open>toggleTaskStatus\<close> of the second editor front end (\<open>app.js\<close>) tests three
  expressions in turn, \<^verbatim>\<open>/^(\s*)-\s*\[\s*\]/\<close>, \<^verbatim>\<open>/^(\s*)-\s*\[\/\]/\<close> and
  \<^verbatim>\<open>/^(\s*)-\s*\[x\]/\<close>, rewrites the match to \<^verbatim>\<open>$1- [/]\<close>, \<^verbatim>\<open>$1- [x]\<close> or
  \<^verbatim>\<open>$1- [ ]\<close>, and turns any other line into a new pending task.
\<close>

definition ace_pending_re :: rx where
  "ace_pending_re = cat [bol, grp 1 (star is_space), chr CHR ''-'', star is_space, chr CHR ''['',
     star is_space, chr CHR '']'']"

definition ace_progress_re :: rx where
  "ace_progress_re = cat [bol, grp 1 (star is_space), chr CHR ''-'', star is_space, chr CHR ''['',
     chr CHR ''/'', chr CHR '']'']"

definition ace_done_re :: rx where
  "ace_done_re = cat [bol, grp 1 (star is_space), chr CHR ''-'', star is_space, chr CHR ''['',
     chr CHR ''x'', chr CHR '']'']"

definition ace_indent_re :: rx where
  "ace_indent_re = cat [bol, grp 1 (star is_space)]"

definition ace_dash_re :: rx where
  "ace_dash_re = cat [bol, chr CHR ''-'', star is_space]"

definition toggleTaskStatus_ace :: "string \<Rightarrow> string" where
  "toggleTaskStatus_ace line =
     (if js_test ace_pending_re line then
        js_replace ace_pending_re (\<lambda>m. cap_text m 1 @ ''- [/]'') line
      else if js_test ace_progress_re line then
        js_replace ace_progress_re (\<lambda>m. cap_text m 1 @ ''- [x]'') line
      else if js_test ace_done_re line then
        js_replace ace_done_re (\<lambda>m. cap_text m 1 @ ''- [ ]'') line
      else
        (let indent = (case js_match ace_indent_re line of
                         Some m \<Rightarrow> cap_text m 1 | None \<Rightarrow> []);
             content = js_replace ace_dash_re (\<lambda>m. [])
                         (js_replace ace_indent_re (\<lambda>m. []) line)
         in indent @ ''- [ ] '' @ content))"

text \<open>
  \<open>addTodaysDate\<close>: the new text of the line under the cursor, \<open>today\<close> being
  \<^verbatim>\<open>new Date().toISOString().split('T')[0]\<close>. The replacement text
  \<^verbatim>\<open>`due:${today}`\<close> holds digits and dashes only, so that none of the \<open>$\<close> patterns
  of a replacement string occurs in it. The expression is \<^verbatim>\<open>/due:\d{4}-\d{2}-\d{2}/\<close>.
\<close>

definition due_re :: rx where
  "due_re = cat [lit ''due:'', date_re]"

definition start_re :: rx where
  "start_re = cat [lit ''start:'', date_re]"

definition addTodaysDate :: "string \<Rightarrow> string \<Rightarrow> string" where
  "addTodaysDate today line =
     (if str_includes line ''due:'' then
        js_replace due_re (\<lambda>m. ''due:'' @ today) line
      else
        (let separator = (if endsWith line '' '' then [] else '' '')
         in line @ separator @ ''due:'' @ today))"


text \<open>
  \<open>updateTaskDatesAtLine\<close> (the write-back of the Gantt view) rewrites a line in two
  steps, first the start field and then the due field; \<open>startDate\<close> and \<open>endDate\<close>
  are the two dates already formatted by \<^verbatim>\<open>d.toISOString().slice(0,10)\<close>.
\<close>

definition setStartField :: "string \<Rightarrow> string \<Rightarrow> string" where
  "setStartField startDate newLine =
     (if js_test start_b_re newLine then
        js_replace start_re (\<lambda>m. ''start:'' @ startDate) newLine
      else newLine @ (if endsWith newLine '' '' then [] else '' '') @ ''start:'' @ startDate)"

definition setDueField :: "string \<Rightarrow> string \<Rightarrow> string" where
  "setDueField endDate newLine =
     (if js_test due_b_re newLine then
        js_replace due_re (\<lambda>m. ''due:'' @ endDate) newLine
      else newLine @ (if endsWith newLine '' '' then [] else '' '') @ ''due:'' @ endDate)"

section \<open>Write-back from the board views\<close>

text \<open>
  \<open>model.getLineContent(lineNumber)\<close> throws for a line number outside the document;
  a function that asks for the model of an editor that does not exist throws as well.
\<close>

datatype error = IllegalLineNumber | NoEditor

definition getLineContent :: "document \<Rightarrow> nat \<Rightarrow> error + string" where
  "getLineContent doc lineNum =
     (if 1 \<le> lineNum \<and> lineNum \<le> length doc then Inr (doc ! (lineNum - 1))
      else Inl IllegalLineNumber)"

text \<open>
  The character to write is \<^verbatim>\<open>mapped[targetStatus] || ' '\<close>, a lookup in the object
  literal \<^verbatim>\<open>{ backlog: ' ', inprogress: '/', done: 'x' }\<close>. The lookup finds the three
  properties of the literal and, for any other name, the properties that every object
  inherits from \<open>Object.prototype\<close>: these are functions, and \<open>__proto__\<close> is the
  prototype itself, so all of them count as true and \<open>ch\<close> is then not a character. The
  concatenation \<^verbatim>\<open>p1 + ch + p3\<close> converts such a value to its text, which is
  \<^verbatim>\<open>[object Object]\<close> for the prototype and the text of a built-in function otherwise
  (written here as V8 prints it; the language standard fixes its form and leaves the
  white space in it to the engine). \<open>mapped\<close> below is the text of \<open>ch\<close>.
\<close>

definition native_function :: "string \<Rightarrow> string" where
  "native_function name = ''function '' @ name @ ''() { [native code] }''"

definition object_prototype :: "(string \<times> string) list" where
  "object_prototype =
     [(''constructor'', native_function ''Object''),
      (''__defineGetter__'', native_function ''__defineGetter__''),
      (''__defineSetter__'', native_function ''__defineSetter__''),
      (''hasOwnProperty'', native_function ''hasOwnProperty''),
      (''__lookupGetter__'', native_function ''__lookupGetter__''),
      (''__lookupSetter__'', native_function ''__lookupSetter__''),
      (''isPrototypeOf'', native_function ''isPrototypeOf''),
      (''propertyIsEnumerable'', native_function ''propertyIsEnumerable''),
      (''toString'', native_function ''toString''),
      (''valueOf'', native_function ''valueOf''),
      (''__proto__'', ''[object Object]''),
      (''toLocaleString'', native_function ''toLocaleString'')]"

definition mapped :: "string \<Rightarrow> string" where
  "mapped targetStatus =
     (if targetStatus = ''backlog'' then '' ''
      else if targetStatus = ''inprogress'' then ''/''
      else if targetStatus = ''done'' then ''x''
      else (case map_of object_prototype targetStatus of
              Some inherited \<Rightarrow> inherited
            | None \<Rightarrow> '' ''))"

text \<open>\<^verbatim>\<open>/^(\s*[-*+]\s*\[)([ x/])(\])/\<close>\<close>

definition status_re :: rx where
  "status_re = cat [bol,
     grp 1 (cat [star is_space, one is_bullet, star is_space, chr CHR ''['']),
     grp 2 (one is_status), grp 3 (chr CHR '']'')]"

definition updateTaskStatusAtLine ::
  "document option \<Rightarrow> nat \<Rightarrow> string \<Rightarrow> error + document" where
  "updateTaskStatusAtLine editor lineNum targetStatus =
     (case editor of
        None \<Rightarrow> Inl NoEditor
      | Some doc \<Rightarrow>
          (case getLineContent doc lineNum of
             Inl e \<Rightarrow> Inl e
           | Inr line \<Rightarrow>
               (let ch = mapped targetStatus;
                    newLine = js_replace status_re
                                (\<lambda>m. cap_text m 1 @ ch @ cap_text m 3) line
                in if newLine \<noteq> line then Inr (doc[lineNum - 1 := newLine])
                   else Inr doc)))"

definition updateTaskDatesAtLine ::
  "document option \<Rightarrow> nat \<Rightarrow> string \<Rightarrow> string \<Rightarrow> error + document" where
  "updateTaskDatesAtLine editor lineNum startDate endDate =
     (case editor of
        None \<Rightarrow> Inl NoEditor
      | Some doc \<Rightarrow>
          (case getLineContent doc lineNum of
             Inl e \<Rightarrow> Inl e
           | Inr line \<Rightarrow>
               Inr (doc[lineNum - 1 := setDueField endDate (setStartField startDate line)])))"

section \<open>Auxiliary definitions for the proofs\<close>

text \<open>
  The first end state of a matcher, and the shape of a list item as the expressions for
  task lines read it: indentation, bullet, white space, \<open>[\<close>, and after it the state
  character and \<open>]\<close>.
\<close>

definition first :: "'a list \<Rightarrow> 'a option" where
  "first xs = (case xs of [] \<Rightarrow> None | x # _ \<Rightarrow> Some x)"

definition split_prefix :: "(char \<Rightarrow> bool) \<Rightarrow> string \<Rightarrow> (string \<times> char \<times> string \<times> string) option" where
  "split_prefix B t =
     (case dropWhile is_space t of
        [] \<Rightarrow> None
      | b # r2 \<Rightarrow>
          if B b then
            (case dropWhile is_space r2 of
               [] \<Rightarrow> None
             | x # r3 \<Rightarrow> if x = CHR ''['' then Some (takeWhile is_space t, b, takeWhile is_space r2, r3)
                          else None)
          else None)"

definition split_item ::
  "(char \<Rightarrow> bool) \<Rightarrow> string \<Rightarrow> (string \<times> char \<times> string \<times> char \<times> string) option" where
  "split_item B t =
     (case split_prefix B t of
        None \<Rightarrow> None
      | Some (indent, b, ws, rest) \<Rightarrow>
          (case rest of
             c # x # rest' \<Rightarrow>
               if is_status c \<and> x = CHR '']'' then Some (indent, b, ws, c, rest') else None
           | _ \<Rightarrow> None))"

text \<open>A task record that \<open>parseTasks\<close> builds from the line with number \<open>n\<close>.\<close>

definition from_line :: "nat \<Rightarrow> string \<Rightarrow> task \<Rightarrow> bool" where
  "from_line n line t \<longleftrightarrow>
     lineNumber t = n \<and> task_id t = ''ln-'' @ decimal n \<and>
     (\<exists>m. js_match task_re line = Some m \<and> status t = status_of (cap m 2) \<and>
          task_text t = cap_text m 3)"

text \<open>The successor of a state character in the cycle space, \<open>/\<close>, \<open>x\<close>, space.\<close>

definition next_status :: "char \<Rightarrow> char" where
  "next_status c = (if c = CHR '' '' then CHR ''/'' else if c = CHR ''/'' then CHR ''x'' else CHR '' '')"

text \<open>The number of positions of a string at which a given word starts.\<close>

fun count_occ :: "string \<Rightarrow> string \<Rightarrow> nat" where
  "count_occ w [] = (if w = [] then 1 else 0)"
| "count_occ w (x # xs) = (if take (length w) (x # xs) = w then 1 else 0) + count_occ w xs"


section \<open>Properties of the matcher\<close>

declare cat.simps [simp del]

lemma cat_Nil_fun: "cat [] = (\<lambda>st. [st])"
  by (rule ext) (simp add: cat.simps)

lemma cat_single: "cat [r] st = r st"
  by (simp add: cat.simps cat_Nil_fun)

lemma star_det:
  assumes "\<And>d' x xs c'. P x \<Longrightarrow> K (d', x # xs, c') = []"
  shows "concat (map K (star P (d, t, c))) = K (d @ takeWhile P t, dropWhile P t, c)"
proof (induction t arbitrary: d)
  case Nil
  show ?case by simp
next
  case (Cons x xs)
  show ?case
  proof (cases "P x")
    case True
    then show ?thesis using Cons [of "d @ [x]"] assms [OF True] by simp
  next
    case False
    then show ?thesis by simp
  qed
qed

lemma space_not_bullet: "is_bullet x \<Longrightarrow> \<not> is_space x"
  by (auto simp: is_space_def is_bullet_def)

lemma space_not_bracket: "\<not> is_space CHR ''[''"
  by (simp add: is_space_def)

lemma after_indent:
  assumes B: "\<And>x. B x \<Longrightarrow> \<not> is_space x"
  shows "cat (one B # star is_space # chr CHR ''['' # rs) (d, t, c) =
     (case t of
        [] \<Rightarrow> []
      | b # r2 \<Rightarrow>
          if B b then
            (case dropWhile is_space r2 of
               [] \<Rightarrow> []
             | x # r3 \<Rightarrow> if x = CHR ''['' then cat rs (d @ [b] @ takeWhile is_space r2 @ ''['', r3, c)
                          else [])
          else [])"
proof (cases t)
  case Nil
  then show ?thesis by (simp add: cat.simps)
next
  case (Cons b r2)
  have K2: "cat (chr CHR ''['' # rs) (d', x # xs, c') = []" if "is_space x" for d' x xs c'
    using that space_not_bracket by (auto simp: chr_def cat.simps)
  show ?thesis
  proof (cases "B b")
    case False
    then show ?thesis using Cons by (simp add: cat.simps)
  next
    case True
    let ?d1 = "d @ [b]"
    have s1: "cat (one B # star is_space # chr CHR ''['' # rs) (d, t, c) =
              cat (star is_space # chr CHR ''['' # rs) (?d1, r2, c)"
      using Cons True by (simp add: cat.simps(2) [of "one B"])
    have s2: "cat (star is_space # chr CHR ''['' # rs) (?d1, r2, c) =
              cat (chr CHR ''['' # rs) (?d1 @ takeWhile is_space r2, dropWhile is_space r2, c)"
      using star_det [where K = "cat (chr CHR ''['' # rs)" and d = ?d1
          and t = r2 and c = c, OF K2] by (simp add: cat.simps(2) [of "star is_space"])
    have s3: "cat (chr CHR ''['' # rs) (?d1 @ takeWhile is_space r2, dropWhile is_space r2, c) =
              (case dropWhile is_space r2 of
                 [] \<Rightarrow> []
               | x # r3 \<Rightarrow> if x = CHR ''['' then cat rs (d @ [b] @ takeWhile is_space r2 @ ''['', r3, c)
                            else [])"
      by (cases "dropWhile is_space r2")
         (simp_all add: chr_def cat.simps(2) [of "one _"] del: dropWhile_eq_Nil_conv)
    show ?thesis using s1 s2 s3 Cons True by simp
  qed
qed

lemma after_indent_split:
  assumes B: "\<And>x. B x \<Longrightarrow> \<not> is_space x"
  shows "cat (one B # star is_space # chr CHR ''['' # rs)
           (d @ takeWhile is_space t, dropWhile is_space t, c) =
     (case split_prefix B t of
        None \<Rightarrow> []
      | Some (indent, b, ws, rest) \<Rightarrow> cat rs (d @ indent @ [b] @ ws @ ''['', rest, c))"
proof (cases "dropWhile is_space t")
  case Nil
  then show ?thesis
    by (simp only: after_indent [OF B] split_prefix_def list.case option.case)
next
  case (Cons b r2)
  then show ?thesis
    by (cases "dropWhile is_space r2")
       (simp_all only: after_indent [OF B] split_prefix_def list.case option.case
          prod.case if_distrib [of "case_option _ _"] append_assoc append.simps split: if_splits)
qed

lemma prefix_re:
  assumes B: "\<And>x. B x \<Longrightarrow> \<not> is_space x"
  shows "cat (star is_space # one B # star is_space # chr CHR ''['' # rs) (d, t, c) =
     (case split_prefix B t of
        None \<Rightarrow> []
      | Some (indent, b, ws, rest) \<Rightarrow> cat rs (d @ indent @ [b] @ ws @ ''['', rest, c))"
proof -
  have K1: "cat (one B # star is_space # chr CHR ''['' # rs) (d', x # xs, c') = []"
    if "is_space x" for d' x xs c'
    using that B [of x] by (auto simp: cat.simps)
  have "cat (star is_space # one B # star is_space # chr CHR ''['' # rs) (d, t, c) =
        cat (one B # star is_space # chr CHR ''['' # rs)
          (d @ takeWhile is_space t, dropWhile is_space t, c)"
    using star_det [where K = "cat (one B # star is_space # chr CHR ''['' # rs)", OF K1]
    by (simp add: cat.simps(2) [of "star is_space"])
  then show ?thesis by (simp only: after_indent_split [OF B])
qed

lemma first_simps [simp]: "first [] = None" "first (x # xs) = Some x"
  by (simp_all add: first_def)

lemma first_append: "first (xs @ ys) = (case first xs of None \<Rightarrow> first ys | Some x \<Rightarrow> Some x)"
  by (cases xs) simp_all

lemma first_None_iff: "first xs = None \<longleftrightarrow> xs = []"
  by (cases xs) simp_all

lemma rx_search_bol_later: "d \<noteq> [] \<Longrightarrow> rx_search (cat (bol # rs)) d t = None"
  by (induction t arbitrary: d) (simp_all add: cat.simps)

lemma rx_search_bol:
  "rx_search (cat (bol # rs)) [] t = map_option (Pair []) (first (cat rs ([], t, [])))"
  by (cases t; cases "cat rs ([], t, [])") (simp_all add: rx_search_bol_later cat.simps)

lemma grp_star_det:
  assumes "\<And>d' x xs c'. P x \<Longrightarrow> K (d', x # xs, c') = []"
  shows "concat (map K (grp n (star P) (d, t, c))) =
         K (d @ takeWhile P t, dropWhile P t, (n, takeWhile P t) # c)"
proof -
  let ?K = "\<lambda>st. K (case st of (d', t', c') \<Rightarrow> (d', t', (n, drop (length d) d') # c'))"
  have "concat (map K (grp n (star P) (d, t, c))) = concat (map ?K (star P (d, t, c)))"
    by (simp add: comp_def)
  also have "\<dots> = ?K (d @ takeWhile P t, dropWhile P t, c)"
    by (rule star_det) (simp add: assms)
  finally show ?thesis by simp
qed

lemma star_first_max:
  "K (d @ takeWhile P t, dropWhile P t, c) \<noteq> [] \<Longrightarrow>
   first (concat (map K (star P (d, t, c)))) = first (K (d @ takeWhile P t, dropWhile P t, c))"
proof (induction t arbitrary: d)
  case Nil
  then show ?case by simp
next
  case (Cons x xs)
  show ?case
  proof (cases "P x")
    case True
    with Cons.prems have ne: "K ((d @ [x]) @ takeWhile P xs, dropWhile P xs, c) \<noteq> []" by simp
    from Cons.IH [OF ne] ne True show ?thesis
      by (simp add: first_append first_None_iff split: option.splits)
  next
    case False
    then show ?thesis by simp
  qed
qed

lemma star_none:
  "(\<And>j. j \<le> length (takeWhile P t) \<Longrightarrow> K (d @ take j t, drop j t, c) = []) \<Longrightarrow>
   concat (map K (star P (d, t, c))) = []"
proof (induction t arbitrary: d)
  case Nil
  then show ?case by simp
next
  case (Cons x xs)
  have k0: "K (d, x # xs, c) = []" using Cons.prems [of 0] by simp
  show ?case
  proof (cases "P x")
    case True
    have "K ((d @ [x]) @ take j xs, drop j xs, c) = []" if "j \<le> length (takeWhile P xs)" for j
      using Cons.prems [of "Suc j"] that True by simp
    from Cons.IH [OF this] k0 True show ?thesis by simp
  next
    case False
    then show ?thesis using k0 by simp
  qed
qed


lemma split_prefix_indent:
  "split_prefix B t = Some (indent, b, ws, rest) \<Longrightarrow> indent = takeWhile is_space t"
  by (auto simp: split_prefix_def split: list.splits if_splits)

lemma prefix_re_grp:
  assumes B: "\<And>x. B x \<Longrightarrow> \<not> is_space x"
  shows "cat (grp n (star is_space) # one B # star is_space # chr CHR ''['' # rs) (d, t, c) =
     (case split_prefix B t of
        None \<Rightarrow> []
      | Some (indent, b, ws, rest) \<Rightarrow> cat rs (d @ indent @ [b] @ ws @ ''['', rest, (n, indent) # c))"
proof -
  have K1: "cat (one B # star is_space # chr CHR ''['' # rs) (d', x # xs, c') = []"
    if "is_space x" for d' x xs c'
    using that B [of x] by (auto simp: cat.simps)
  have "cat (grp n (star is_space) # one B # star is_space # chr CHR ''['' # rs) (d, t, c) =
        cat (one B # star is_space # chr CHR ''['' # rs)
          (d @ takeWhile is_space t, dropWhile is_space t, (n, takeWhile is_space t) # c)"
    using grp_star_det [where K = "cat (one B # star is_space # chr CHR ''['' # rs)", OF K1]
    by (simp only: cat.simps(2) [of "grp n (star is_space)"])
  also have "\<dots> = (case split_prefix B t of
        None \<Rightarrow> []
      | Some (indent, b, ws, rest) \<Rightarrow> cat rs (d @ indent @ [b] @ ws @ ''['', rest, (n, indent) # c))"
    by (auto simp only: after_indent_split [OF B] dest: split_prefix_indent split: option.splits)
  finally show ?thesis .
qed


lemma split_prefix_SomeD:
  assumes "split_prefix B t = Some (indent, b, ws, rest)"
  shows "t = indent @ [b] @ ws @ ''['' @ rest" "list_all is_space indent" "B b"
    "list_all is_space ws"
proof -
  from assms obtain r2 r3 where
    1: "dropWhile is_space t = b # r2" and 2: "B b" and
    3: "dropWhile is_space r2 = CHR ''['' # r3" and
    4: "indent = takeWhile is_space t" "ws = takeWhile is_space r2" "rest = r3"
    by (auto simp: split_prefix_def split: list.splits if_splits)
  have "t = takeWhile is_space t @ dropWhile is_space t" by simp
  moreover have "r2 = takeWhile is_space r2 @ dropWhile is_space r2" by simp
  ultimately show "t = indent @ [b] @ ws @ ''['' @ rest"
    using 1 3 4 by (metis append_Cons append_Nil)
  show "list_all is_space indent" "list_all is_space ws"
    using 4 by (simp_all add: list_all_iff) (meson set_takeWhileD)+
  show "B b" by (rule 2)
qed

lemma split_prefix_SomeI:
  assumes "list_all is_space indent" "B b" "\<not> is_space b" "list_all is_space ws"
  shows "split_prefix B (indent @ [b] @ ws @ ''['' @ rest) = Some (indent, b, ws, rest)"
proof -
  have i: "\<And>x. x \<in> set indent \<Longrightarrow> is_space x" and w: "\<And>x. x \<in> set ws \<Longrightarrow> is_space x"
    using assms by (simp_all add: list_all_iff)
  have 1: "dropWhile is_space (indent @ [b] @ ws @ ''['' @ rest) = b # ws @ ''['' @ rest"
    using i assms(3) by (simp add: dropWhile_append3)
  have 2: "takeWhile is_space (indent @ [b] @ ws @ ''['' @ rest) = indent"
    using i assms(3) by (simp add: takeWhile_tail)
  have 3: "dropWhile is_space (ws @ ''['' @ rest) = CHR ''['' # rest"
    using w space_not_bracket by (simp add: dropWhile_append3)
  have 4: "takeWhile is_space (ws @ ''['' @ rest) = ws"
    using w space_not_bracket by (simp add: takeWhile_tail)
  show ?thesis
    unfolding split_prefix_def by (simp only: 1 2 3 4 list.case assms(2) if_True refl)
qed

lemma split_item_SomeD:
  assumes "split_item B t = Some (indent, b, ws, c, rest)"
  shows "t = indent @ [b] @ ws @ ''['' @ [c] @ '']'' @ rest" "list_all is_space indent" "B b"
    "list_all is_space ws" "is_status c"
proof -
  from assms obtain r where p: "split_prefix B t = Some (indent, b, ws, r)"
    and r: "r = c # CHR '']'' # rest" and c: "is_status c"
    by (auto simp: split_item_def split: option.splits list.splits if_splits)
  from split_prefix_SomeD [OF p] r c
  show "t = indent @ [b] @ ws @ ''['' @ [c] @ '']'' @ rest" "list_all is_space indent" "B b"
    "list_all is_space ws" "is_status c"
    by simp_all
qed

lemma split_item_SomeI:
  assumes "list_all is_space indent" "B b" "\<not> is_space b" "list_all is_space ws" "is_status c"
  shows "split_item B (indent @ [b] @ ws @ ''['' @ [c] @ '']'' @ rest) = Some (indent, b, ws, c, rest)"
  using split_prefix_SomeI [where B = B and rest = "[c] @ '']'' @ rest", OF assms(1-4)] assms(5)
  by (simp add: split_item_def)

lemma item_tail:
  "cat [grp 2 (one is_status), grp 3 (chr CHR '']'')] (d, t, c0) =
     (case t of
        c # x # rest \<Rightarrow>
          if is_status c \<and> x = CHR '']''
          then [(d @ [c] @ '']'', rest, [(3, '']''), (2, [c])] @ c0)] else []
      | _ \<Rightarrow> [])"
  by (cases t; cases "tl t") (auto simp: chr_def cat.simps)

lemma item_re:
  assumes B: "\<And>x. B x \<Longrightarrow> \<not> is_space x"
  shows "cat [grp 1 (cat [star is_space, one B, star is_space, chr CHR ''['']),
              grp 2 (one is_status), grp 3 (chr CHR '']'')] ([], t, []) =
     (case split_item B t of
        None \<Rightarrow> []
      | Some (indent, b, ws, c, rest) \<Rightarrow>
          [(indent @ [b] @ ws @ ''['' @ [c] @ '']'', rest,
            [(3, '']''), (2, [c]), (1, indent @ [b] @ ws @ ''['')])])"
proof -
  let ?P1 = "cat [star is_space, one B, star is_space, chr CHR ''['']"
  let ?T = "cat [grp 2 (one is_status), grp 3 (chr CHR '']'')]"
  have e1: "cat [grp 1 ?P1, grp 2 (one is_status), grp 3 (chr CHR '']'')] ([], t, []) =
            concat (map ?T (grp 1 ?P1 ([], t, [])))"
    by (rule cat.simps(2))
  have e2: "grp 1 ?P1 ([], t, []) =
            map (\<lambda>(d', t', c'). (d', t', (1, d') # c')) (?P1 ([], t, []))"
    by (simp only: grp.simps list.size drop_0)
  have e3: "?P1 ([], t, []) =
            (case split_prefix B t of
               None \<Rightarrow> []
             | Some (indent, b, ws, rest) \<Rightarrow> [(indent @ [b] @ ws @ ''['', rest, [])])"
    by (simp only: prefix_re [OF B] cat.simps(1) append_Nil)
  show ?thesis
  proof (cases "split_prefix B t")
    case None
    then show ?thesis
      by (simp only: e1 e2 e3 split_item_def option.case list.map concat.simps)
  next
    case (Some a)
    obtain indent b ws rest where a: "a = (indent, b, ws, rest)" by (cases a) auto
    have "cat [grp 1 ?P1, grp 2 (one is_status), grp 3 (chr CHR '']'')] ([], t, []) =
          ?T (indent @ [b] @ ws @ ''['', rest, [(1, indent @ [b] @ ws @ ''['')])"
      by (simp only: e1 e2 e3 Some a option.case prod.case list.map concat.simps append_Nil2)
    then show ?thesis
      using Some a unfolding item_tail split_item_def
      by (auto split: list.splits)
  qed
qed


lemma js_replace_item:
  assumes B: "\<And>x. B x \<Longrightarrow> \<not> is_space x"
  shows "js_replace (cat [bol, grp 1 (cat [star is_space, one B, star is_space, chr CHR ''['']),
              grp 2 (one is_status), grp 3 (chr CHR '']'')]) f t =
     (case split_item B t of
        None \<Rightarrow> t
      | Some (indent, b, ws, c, rest) \<Rightarrow>
          f [(0, indent @ [b] @ ws @ ''['' @ [c] @ '']''), (3, '']''), (2, [c]),
             (1, indent @ [b] @ ws @ ''['')] @ rest)"
  apply (simp only: js_replace_def)
  apply (simp only: rx_search_bol)
  apply (simp only: item_re [OF B])
  apply (simp split: option.splits)
  done

lemma status_re_replace:
  "js_replace status_re (\<lambda>m. cap_text m 1 @ ch @ cap_text m 3) t =
     (case split_item is_bullet t of
        None \<Rightarrow> t
      | Some (indent, b, ws, c, rest) \<Rightarrow> indent @ [b] @ ws @ ''['' @ ch @ '']'' @ rest)"
  apply (simp only: status_re_def)
  apply (simp only: js_replace_item [OF space_not_bullet])
  apply (simp add: cap_text_def cap_def split: option.splits)
  done

lemma grp_star_eol_aux:
  "concat (map (\<lambda>(d', t', c'). eol (d', t', (n, drop l d') # c')) (star P (d, t, c))) =
     (if list_all P t then [(d @ t, [], (n, drop l (d @ t)) # c)] else [])"
proof (induction t arbitrary: d)
  case Nil
  show ?case by simp
next
  case (Cons x xs)
  let ?F = "\<lambda>(d', t', c'). eol (d', t', (n, drop l d') # c')"
  have "concat (map ?F (star P (d, x # xs, c))) =
        concat (map ?F (if P x then star P (d @ [x], xs, c) else []))"
    by simp
  then show ?case
    by (cases "P x") (simp_all only: Cons.IH if_True if_False, simp_all)
qed

lemma grp_star_eol:
  "cat [grp n (star P), eol] (d, t, c) =
     (if list_all P t then [(d @ t, [], (n, t) # c)] else [])"
proof -
  have f: "cat [eol] \<circ> (\<lambda>(d', t', c'). (d', t', (n, drop (length d) d') # c')) =
           (\<lambda>(d', t', c'). eol (d', t', (n, drop (length d) d') # c'))"
    by (rule ext) (simp only: comp_def cat_single split: prod.splits, simp)
  have "cat [grp n (star P), eol] (d, t, c) =
        concat (map (\<lambda>(d', t', c'). eol (d', t', (n, drop (length d) d') # c')) (star P (d, t, c)))"
    by (simp only: cat.simps(2) grp.simps map_map f)
  then show ?thesis by (simp only: grp_star_eol_aux) simp
qed

lemma task_body:
  "first (cat [star is_space, grp 3 (star is_dot), eol] (d, t, c)) =
     (if list_all is_dot (dropWhile is_space t)
      then Some (d @ t, [], (3, dropWhile is_space t) # c) else None)"
proof -
  let ?K = "cat [grp 3 (star is_dot), eol]"
  have e: "cat [star is_space, grp 3 (star is_dot), eol] (d, t, c) =
           concat (map ?K (star is_space (d, t, c)))"
    by (rule cat.simps(2))
  show ?thesis
  proof (cases "list_all is_dot (dropWhile is_space t)")
    case True
    then have k: "?K (d @ takeWhile is_space t, dropWhile is_space t, c) =
        [(d @ t, [], (3, dropWhile is_space t) # c)]"
      by (simp only: grp_star_eol) simp
    then have "?K (d @ takeWhile is_space t, dropWhile is_space t, c) \<noteq> []" by simp
    from star_first_max [where K = ?K and P = is_space and d = d and t = t and c = c, OF this]
      k True show ?thesis by (simp only: e) simp
  next
    case False
    have "?K (d @ take j t, drop j t, c) = []" if "j \<le> length (takeWhile is_space t)" for j
    proof -
      have "dropWhile is_space t = drop (length (takeWhile is_space t)) t"
        by (simp add: dropWhile_eq_drop)
      then have "set (dropWhile is_space t) \<subseteq> set (drop j t)"
        using that by (simp add: set_drop_subset_set_drop)
      with False have "\<not> list_all is_dot (drop j t)" by (auto simp: list_all_iff)
      then show ?thesis by (simp only: grp_star_eol) simp
    qed
    from star_none [of is_space t ?K d c, OF this] False show ?thesis by (simp only: e) simp
  qed
qed

lemma task_tail:
  "cat [grp 2 (one is_status), chr CHR '']'', star is_space, grp 3 (star is_dot), eol] (d, t, c0) =
     (case t of
        c # x # rest \<Rightarrow>
          if is_status c \<and> x = CHR '']''
          then cat [star is_space, grp 3 (star is_dot), eol] (d @ [c] @ '']'', rest, (2, [c]) # c0)
          else []
      | _ \<Rightarrow> [])"
proof -
  have "cat [grp 2 (one is_status), chr CHR '']'', star is_space, grp 3 (star is_dot), eol] (d, t, c0) =
     concat (map (cat [chr CHR '']'', star is_space, grp 3 (star is_dot), eol])
       (grp 2 (one is_status) (d, t, c0)))"
    by (rule cat.simps(2))
  also have "\<dots> = (case t of
        c # x # rest \<Rightarrow>
          if is_status c \<and> x = CHR '']''
          then cat [star is_space, grp 3 (star is_dot), eol] (d @ [c] @ '']'', rest, (2, [c]) # c0)
          else []
      | _ \<Rightarrow> [])"
  proof (cases t)
    case Nil
    then show ?thesis by simp
  next
    case (Cons c r)
    then show ?thesis
      by (cases r) (simp_all add: chr_def cat.simps(2) [of "one _"])
  qed
  finally show ?thesis .
qed

lemma task_first:
  assumes B: "\<And>x. B x \<Longrightarrow> \<not> is_space x"
  shows "first (cat [grp 1 (star is_space), one B, star is_space, chr CHR ''['',
           grp 2 (one is_status), chr CHR '']'', star is_space, grp 3 (star is_dot), eol]
           ([], t, [])) =
     (case split_item B t of
        None \<Rightarrow> None
      | Some (indent, b, ws, c, rest) \<Rightarrow>
          if list_all is_dot (dropWhile is_space rest)
          then Some (t, [], [(3, dropWhile is_space rest), (2, [c]), (1, indent)])
          else None)"
proof (cases "split_prefix B t")
  case None
  then show ?thesis by (simp only: prefix_re_grp [OF B] split_item_def option.case first_simps)
next
  case (Some a)
  obtain indent b ws r where a: "a = (indent, b, ws, r)" by (cases a) auto
  note p = Some [unfolded a]
  have t: "t = indent @ [b] @ ws @ ''['' @ r" by (rule split_prefix_SomeD(1) [OF p])
  have e: "cat [grp 1 (star is_space), one B, star is_space, chr CHR ''['',
           grp 2 (one is_status), chr CHR '']'', star is_space, grp 3 (star is_dot), eol]
           ([], t, []) =
        cat [grp 2 (one is_status), chr CHR '']'', star is_space, grp 3 (star is_dot), eol]
           (indent @ [b] @ ws @ ''['', r, [(1, indent)])"
    by (simp only: prefix_re_grp [OF B] p option.case prod.case append_Nil)
  show ?thesis
  proof (cases r)
    case Nil
    then show ?thesis by (simp only: e task_tail split_item_def p option.case prod.case list.case first_simps)
  next
    case (Cons c r')
    show ?thesis
    proof (cases r')
      case Nil
      then show ?thesis using Cons
        by (simp only: e task_tail split_item_def p option.case prod.case list.case first_simps)
    next
      case (Cons x rest)
      show ?thesis
      proof (cases "is_status c \<and> x = CHR '']''")
        case False
        then show ?thesis using Cons \<open>r = c # r'\<close>
          by (simp only: e task_tail split_item_def p option.case prod.case list.case first_simps if_False)
      next
        case True
        let ?D = "indent @ [b] @ ws @ ''[''"
        have t': "(?D @ [c] @ '']'') @ rest = t"
          using t Cons \<open>r = c # r'\<close> True by simp
        have "cat [grp 2 (one is_status), chr CHR '']'', star is_space, grp 3 (star is_dot), eol]
                (?D, r, [(1, indent)]) =
              cat [star is_space, grp 3 (star is_dot), eol]
                (?D @ [c] @ '']'', rest, [(2, [c]), (1, indent)])"
          using Cons \<open>r = c # r'\<close> True by (simp add: task_tail)
        then have "first (cat [grp 2 (one is_status), chr CHR '']'', star is_space,
                     grp 3 (star is_dot), eol] (?D, r, [(1, indent)])) =
           (if list_all is_dot (dropWhile is_space rest)
            then Some (t, [], [(3, dropWhile is_space rest), (2, [c]), (1, indent)]) else None)"
          by (simp only: task_body t')
        moreover have "split_item B t = Some (indent, b, ws, c, rest)"
          using Cons \<open>r = c # r'\<close> True
          by (simp add: split_item_def p)
        ultimately show ?thesis by (simp only: e option.case prod.case)
      qed
    qed
  qed
qed

lemma js_match_task:
  "js_match task_re t =
     (case split_item is_bullet t of
        None \<Rightarrow> None
      | Some (indent, b, ws, c, rest) \<Rightarrow>
          if list_all is_dot (dropWhile is_space rest)
          then Some [(0, t), (3, dropWhile is_space rest), (2, [c]), (1, indent)]
          else None)"
  apply (simp only: js_match_def task_re_def)
  apply (simp only: rx_search_bol)
  apply (simp only: task_first [OF space_not_bullet])
  apply (simp split: option.splits)
  done

section \<open>Properties of the parser loop\<close>

lemma rep_fail: "0 < lo \<Longrightarrow> r st = [] \<Longrightarrow> rep lo hi r st = []"
  by (cases lo) (simp_all add: rep_def cat.simps)

lemma heading_needs_hash:
  assumes "t = [] \<or> hd t \<noteq> CHR ''#''"
  shows "js_match heading_re t = None"
proof -
  have "chr CHR ''#'' ([], t, []) = []"
    using assms by (cases t) (simp_all add: chr_def)
  then have "rep 1 3 (chr CHR ''#'') ([], t, []) = []"
    by (simp add: rep_fail)
  then have "grp 1 (rep 1 3 (chr CHR ''#'')) ([], t, []) = []"
    by (simp only: grp.simps list.map)
  then have "cat [grp 1 (rep 1 3 (chr CHR ''#'')), plus is_space, grp 2 (star_lazy is_dot),
     opt (cat [plus is_space, grp 3 (cat [chr CHR ''#'', times 6 (one is_hex)])]),
     star is_space, eol] ([], t, []) = []"
    by (simp only: cat.simps(2) list.map concat.simps)
  then show ?thesis
    by (simp only: js_match_def heading_re_def rx_search_bol) simp
qed

lemma task_not_heading:
  assumes "js_match task_re t = Some m"
  shows "js_match heading_re t = None"
proof -
  from assms obtain indent b ws c rest where
    s: "split_item is_bullet t = Some (indent, b, ws, c, rest)"
    by (auto simp: js_match_task split: option.splits)
  note d = split_item_SomeD [OF s]
  have "hd t \<noteq> CHR ''#''"
  proof (cases indent)
    case Nil
    then have "hd t = b" using d(1) by simp
    then show ?thesis using d(3) by (auto simp: is_bullet_def)
  next
    case (Cons a as)
    then have "hd t = a" "is_space a" using d(1,2) by simp_all
    then show ?thesis by (auto simp: is_space_def)
  qed
  then show ?thesis by (simp add: heading_needs_hash)
qed

lemma parse_line_cases:
  "(tasks (parse_line i line st) = tasks st \<and> js_match task_re line = None) \<or>
   (\<exists>t. tasks (parse_line i line st) = tasks st @ [t] \<and> from_line (i + 1) line t)"
proof (cases "js_match task_re line")
  case None
  then show ?thesis by (simp add: parse_line_def split: option.splits)
next
  case (Some m)
  then have "js_match heading_re line = None" by (rule task_not_heading)
  then show ?thesis using Some
    by (simp add: parse_line_def from_line_def Let_def)
qed

lemma parse_loop_tasks:
  "\<exists>new. tasks (parse_loop i ls st) = tasks st @ new \<and>
     sorted_wrt (<) (map lineNumber new) \<and>
     (\<forall>t\<in>set new. i < lineNumber t \<and> lineNumber t \<le> i + length ls \<and>
        from_line (lineNumber t) (ls ! (lineNumber t - i - 1)) t) \<and>
     (\<forall>j<length ls. js_match task_re (ls ! j) \<noteq> None \<longrightarrow>
        (\<exists>t\<in>set new. lineNumber t = i + j + 1))"
proof (induction ls arbitrary: i st)
  case Nil
  show ?case by simp
next
  case (Cons l ls)
  from Cons.IH [of "Suc i" "parse_line i l st"] obtain new' where
    n1: "tasks (parse_loop (Suc i) ls (parse_line i l st)) = tasks (parse_line i l st) @ new'" and
    n2: "sorted_wrt (<) (map lineNumber new')" and
    n3: "\<And>t. t \<in> set new' \<Longrightarrow> Suc i < lineNumber t \<and> lineNumber t \<le> Suc i + length ls \<and>
        from_line (lineNumber t) (ls ! (lineNumber t - Suc i - 1)) t" and
    n4: "\<And>j. j < length ls \<Longrightarrow> js_match task_re (ls ! j) \<noteq> None \<Longrightarrow>
        \<exists>t\<in>set new'. lineNumber t = Suc i + j + 1"
    by blast
  have shift: "(l # ls) ! (lineNumber t - i - 1) = ls ! (lineNumber t - Suc i - 1)"
    if "Suc i < lineNumber t" for t :: task
  proof -
    from that have "lineNumber t - i - 1 = Suc (lineNumber t - Suc i - 1)" by arith
    then show ?thesis by simp
  qed
  from parse_line_cases [of i l st] show ?case
  proof
    assume a: "tasks (parse_line i l st) = tasks st \<and> js_match task_re l = None"
    have "tasks (parse_loop i (l # ls) st) = tasks st @ new'" using n1 a by simp
    moreover have "\<forall>t\<in>set new'. i < lineNumber t \<and> lineNumber t \<le> i + length (l # ls) \<and>
        from_line (lineNumber t) ((l # ls) ! (lineNumber t - i - 1)) t"
      using n3 shift by fastforce
    moreover have "\<forall>j<length (l # ls). js_match task_re ((l # ls) ! j) \<noteq> None \<longrightarrow>
        (\<exists>t\<in>set new'. lineNumber t = i + j + 1)"
    proof (intro allI impI)
      fix j assume j: "j < length (l # ls)" "js_match task_re ((l # ls) ! j) \<noteq> None"
      with a obtain k where k: "j = Suc k" by (cases j) auto
      with j n4 [of k] show "\<exists>t\<in>set new'. lineNumber t = i + j + 1" by simp
    qed
    ultimately show ?thesis using n2 by blast
  next
    assume "\<exists>t. tasks (parse_line i l st) = tasks st @ [t] \<and> from_line (i + 1) l t"
    then obtain t0 where t0: "tasks (parse_line i l st) = tasks st @ [t0]"
      and f0: "from_line (i + 1) l t0" by blast
    have ln0: "lineNumber t0 = i + 1" using f0 by (simp add: from_line_def)
    have "tasks (parse_loop i (l # ls) st) = tasks st @ (t0 # new')" using n1 t0 by simp
    moreover have "sorted_wrt (<) (map lineNumber (t0 # new'))"
      using n2 n3 ln0 by fastforce
    moreover have "\<forall>t\<in>set (t0 # new'). i < lineNumber t \<and> lineNumber t \<le> i + length (l # ls) \<and>
        from_line (lineNumber t) ((l # ls) ! (lineNumber t - i - 1)) t"
    proof
      fix t assume "t \<in> set (t0 # new')"
      then consider "t = t0" | "t \<in> set new'" by auto
      then show "i < lineNumber t \<and> lineNumber t \<le> i + length (l # ls) \<and>
        from_line (lineNumber t) ((l # ls) ! (lineNumber t - i - 1)) t"
      proof cases
        case 1
        then show ?thesis using f0 ln0 by simp
      next
        case 2
        from n3 [OF 2] shift [of t] show ?thesis by simp
      qed
    qed
    moreover have "\<forall>j<length (l # ls). js_match task_re ((l # ls) ! j) \<noteq> None \<longrightarrow>
        (\<exists>t\<in>set (t0 # new'). lineNumber t = i + j + 1)"
    proof (intro allI impI)
      fix j assume j: "j < length (l # ls)" "js_match task_re ((l # ls) ! j) \<noteq> None"
      show "\<exists>t\<in>set (t0 # new'). lineNumber t = i + j + 1"
      proof (cases j)
        case 0
        then show ?thesis using ln0 by simp
      next
        case (Suc k)
        with j n4 [of k] show ?thesis by auto
      qed
    qed
    ultimately show ?thesis by blast
  qed
qed

lemma parseTasks_sorted: "sorted_wrt (<) (map lineNumber (parseTasks (Some doc)))"
  using parse_loop_tasks [of 0 doc "\<lparr>lastHeading = None, lastColor = ''#1976D2'', tasks = []\<rparr>"]
  by (auto simp: parseTasks_def)

lemma parseTasks_from_line:
  assumes "t \<in> set (parseTasks (Some doc))"
  shows "1 \<le> lineNumber t" "lineNumber t \<le> length doc"
    "from_line (lineNumber t) (doc ! (lineNumber t - 1)) t"
  using parse_loop_tasks [of 0 doc "\<lparr>lastHeading = None, lastColor = ''#1976D2'', tasks = []\<rparr>"]
    assms
  by (auto simp: parseTasks_def)

lemma parseTasks_complete:
  assumes "j < length doc" "js_match task_re (doc ! j) \<noteq> None"
  shows "\<exists>t\<in>set (parseTasks (Some doc)). lineNumber t = j + 1"
  using parse_loop_tasks [of 0 doc "\<lparr>lastHeading = None, lastColor = ''#1976D2'', tasks = []\<rparr>"]
    assms
  by (auto simp: parseTasks_def)

lemma mapped_status_of: "is_status c \<Longrightarrow> mapped (status_of (Some [c])) = [c]"
  by (auto simp: is_status_def mapped_def status_of_def)

text \<open>
  A target that is the name of no column gives a space, unless every object inherits a
  property of that name: then the text of the inherited value goes into the bracket.
\<close>

lemma updateTaskStatusAtLine_other_names:
  "updateTaskStatusAtLine (Some [''- [x] t'']) 1 ''archive'' = Inr [''- [ ] t'']"
  "updateTaskStatusAtLine (Some [''- [x] t'']) 1 ''valueOf'' =
     Inr [''- [function valueOf() { [native code] }] t'']"
  "updateTaskStatusAtLine (Some [''- [x] t'']) 1 ''__proto__'' = Inr [''- [[object Object]] t'']"
  by code_simp+

lemma task_line_split:
  assumes "t \<in> set (parseTasks (Some doc))"
  obtains indent b ws c rest where
    "split_item is_bullet (doc ! (lineNumber t - 1)) = Some (indent, b, ws, c, rest)"
    "status t = status_of (Some [c])" "task_text t = dropWhile is_space rest"
    "list_all is_dot (dropWhile is_space rest)"
proof -
  from parseTasks_from_line(3) [OF assms] obtain m where
    m: "js_match task_re (doc ! (lineNumber t - 1)) = Some m"
    and s: "status t = status_of (cap m 2)" and x: "task_text t = cap_text m 3"
    by (auto simp: from_line_def)
  from m obtain indent b ws c rest where
    i: "split_item is_bullet (doc ! (lineNumber t - 1)) = Some (indent, b, ws, c, rest)"
    and d: "list_all is_dot (dropWhile is_space rest)"
    and m': "m = [(0, doc ! (lineNumber t - 1)), (3, dropWhile is_space rest), (2, [c]), (1, indent)]"
    by (auto simp: js_match_task split: option.splits if_splits)
  show thesis
    by (rule that [OF i _ _ d]) (simp_all add: s x m' cap_def cap_text_def)
qed

lemma task_grammar_iff:
  "js_match task_re line \<noteq> None \<longleftrightarrow>
     (\<exists>indent b ws c ws' body.
        line = indent @ [b] @ ws @ ''['' @ [c] @ '']'' @ ws' @ body \<and>
        list_all is_space indent \<and> is_bullet b \<and> list_all is_space ws \<and> is_status c \<and>
        list_all is_space ws' \<and> list_all is_dot body)"
proof
  assume "js_match task_re line \<noteq> None"
  then obtain indent b ws c rest where
    i: "split_item is_bullet line = Some (indent, b, ws, c, rest)"
    and d: "list_all is_dot (dropWhile is_space rest)"
    by (auto simp: js_match_task split: option.splits if_splits)
  note s = split_item_SomeD [OF i]
  have "line = indent @ [b] @ ws @ ''['' @ [c] @ '']'' @ takeWhile is_space rest @ dropWhile is_space rest"
    using s(1) by simp
  moreover have "list_all is_space (takeWhile is_space rest)"
    by (auto simp: list_all_iff dest: set_takeWhileD)
  ultimately show "\<exists>indent b ws c ws' body.
        line = indent @ [b] @ ws @ ''['' @ [c] @ '']'' @ ws' @ body \<and>
        list_all is_space indent \<and> is_bullet b \<and> list_all is_space ws \<and> is_status c \<and>
        list_all is_space ws' \<and> list_all is_dot body"
    using s(2-5) d by blast
next
  assume "\<exists>indent b ws c ws' body.
        line = indent @ [b] @ ws @ ''['' @ [c] @ '']'' @ ws' @ body \<and>
        list_all is_space indent \<and> is_bullet b \<and> list_all is_space ws \<and> is_status c \<and>
        list_all is_space ws' \<and> list_all is_dot body"
  then obtain indent b ws c ws' body where
    l: "line = indent @ [b] @ ws @ ''['' @ [c] @ '']'' @ ws' @ body" and
    p: "list_all is_space indent" "is_bullet b" "list_all is_space ws" "is_status c" and
    w: "list_all is_space ws'" and d: "list_all is_dot body"
    by blast
  have i: "split_item is_bullet line = Some (indent, b, ws, c, ws' @ body)"
    unfolding l using p(1,2) space_not_bullet [OF p(2)] p(3,4)
    by (rule split_item_SomeI [where B = is_bullet])
  have "dropWhile is_space (ws' @ body) = dropWhile is_space body"
    using w by (simp add: dropWhile_append2 list_all_iff)
  then have "list_all is_dot (dropWhile is_space (ws' @ body))"
    using d by (auto simp: list_all_iff dest: set_dropWhileD)
  then show "js_match task_re line \<noteq> None"
    by (simp add: js_match_task i)
qed

section \<open>Properties of the line patchers\<close>

lemma not_space_dash: "x = CHR ''-'' \<Longrightarrow> \<not> is_space x"
  by (simp add: is_space_def)

lemma toggle_eq:
  "toggleTaskStatus t =
     (case split_item (\<lambda>x. x = CHR ''-'') t of
        None \<Rightarrow> t
      | Some (indent, b, ws, c, rest) \<Rightarrow> indent @ [b] @ ws @ ''['' @ [next_status c] @ '']'' @ rest)"
  apply (simp only: toggleTaskStatus_def toggle_re_def chr_def [of "CHR ''-''"])
  apply (simp only: js_replace_item [of "\<lambda>x. x = CHR ''-''", OF not_space_dash])
  apply (simp add: cap_text_def cap_def next_status_def split: option.splits)
  done

lemma is_status_next: "is_status c \<Longrightarrow> is_status (next_status c)"
  by (auto simp: is_status_def next_status_def)

lemma next_status_thrice: "is_status c \<Longrightarrow> next_status (next_status (next_status c)) = c"
  by (auto simp: is_status_def next_status_def)

lemma toggle_dash:
  assumes "list_all is_space indent" "list_all is_space ws" "is_status c"
  shows "toggleTaskStatus (indent @ ''-'' @ ws @ ''['' @ [c] @ '']'' @ rest) =
         indent @ ''-'' @ ws @ ''['' @ [next_status c] @ '']'' @ rest"
proof -
  have "split_item (\<lambda>x. x = CHR ''-'') (indent @ [CHR ''-''] @ ws @ ''['' @ [c] @ '']'' @ rest) =
        Some (indent, CHR ''-'', ws, c, rest)"
    by (rule split_item_SomeI [where B = "\<lambda>x. x = CHR ''-''"])
       (simp_all add: assms is_space_def)
  then show ?thesis by (simp add: toggle_eq)
qed

lemma star_space_bracket:
  "cat (star is_space # chr CHR '']'' # rs) (d, t, c) =
     (case dropWhile is_space t of
        [] \<Rightarrow> []
      | x # r \<Rightarrow> if x = CHR '']'' then cat rs (d @ takeWhile is_space t @ '']'', r, c) else [])"
proof -
  have K: "cat (chr CHR '']'' # rs) (d', x # xs, c') = []" if "is_space x" for d' x xs c'
    using that by (auto simp: chr_def cat.simps is_space_def)
  have "cat (star is_space # chr CHR '']'' # rs) (d, t, c) =
        cat (chr CHR '']'' # rs) (d @ takeWhile is_space t, dropWhile is_space t, c)"
    using star_det [where K = "cat (chr CHR '']'' # rs)", OF K]
    by (simp add: cat.simps(2) [of "star is_space"])
  then show ?thesis
    by (cases "dropWhile is_space t")
       (simp_all add: chr_def cat.simps(2) [of "one _"] del: dropWhile_eq_Nil_conv)
qed

lemma ace_prefix:
  assumes "list_all is_space indent"
  shows "cat (grp 1 (star is_space) # chr CHR ''-'' # star is_space # chr CHR ''['' # rs)
           ([], indent @ ''- ['' @ r, []) =
         cat rs (indent @ ''- ['', r, [(1, indent)])"
proof -
  have s: "split_prefix (\<lambda>x. x = CHR ''-'') (indent @ [CHR ''-''] @ '' '' @ ''['' @ r) =
        Some (indent, CHR ''-'', '' '', r)"
    by (rule split_prefix_SomeI [where B = "\<lambda>x. x = CHR ''-''"])
       (simp_all add: assms is_space_def)
  have "cat (grp 1 (star is_space) # one (\<lambda>x. x = CHR ''-'') # star is_space # chr CHR ''['' # rs)
           ([], indent @ [CHR ''-''] @ '' '' @ ''['' @ r, []) =
         cat rs ([] @ indent @ [CHR ''-''] @ '' '' @ ''['', r, [(1, indent)])"
    by (simp only: prefix_re_grp [of "\<lambda>x. x = CHR ''-''", OF not_space_dash] s option.case prod.case)
  then show ?thesis by (simp add: chr_def [of "CHR ''-''"])
qed

lemma ace_pending:
  assumes "list_all is_space indent" "c \<noteq> CHR '']''"
  shows "rx_search ace_pending_re [] (indent @ ''- ['' @ [c] @ '']'' @ rest) =
     (if is_space c then Some ([], (indent @ ''- ['' @ [c] @ '']'', rest, [(1, indent)])) else None)"
  using assms(2)
  apply (simp only: ace_pending_re_def rx_search_bol)
  apply (simp only: ace_prefix [OF assms(1)] star_space_bracket)
  apply (simp add: is_space_def cat.simps)
  done

lemma ace_progress:
  assumes "list_all is_space indent"
  shows "rx_search ace_progress_re [] (indent @ ''- ['' @ [c] @ '']'' @ rest) =
     (if c = CHR ''/'' then Some ([], (indent @ ''- [/]'', rest, [(1, indent)])) else None)"
  apply (simp only: ace_progress_re_def rx_search_bol)
  apply (simp only: ace_prefix [OF assms])
  apply (simp add: cat.simps chr_def)
  done

lemma ace_done:
  assumes "list_all is_space indent"
  shows "rx_search ace_done_re [] (indent @ ''- ['' @ [c] @ '']'' @ rest) =
     (if c = CHR ''x'' then Some ([], (indent @ ''- [x]'', rest, [(1, indent)])) else None)"
  apply (simp only: ace_done_re_def rx_search_bol)
  apply (simp only: ace_prefix [OF assms])
  apply (simp add: cat.simps chr_def)
  done

lemma toggle_ace_dash:
  assumes "list_all is_space indent" "is_status c"
  shows "toggleTaskStatus_ace (indent @ ''- ['' @ [c] @ '']'' @ rest) =
         indent @ ''- ['' @ [next_status c] @ '']'' @ rest"
proof -
  define L where "L = indent @ ''- ['' @ [c] @ '']'' @ rest"
  have p: "rx_search ace_pending_re [] L =
     (if is_space c then Some ([], (indent @ ''- ['' @ [c] @ '']'', rest, [(1, indent)])) else None)"
    unfolding L_def using assms(2) by (intro ace_pending [OF assms(1)]) (auto simp: is_status_def)
  have g: "rx_search ace_progress_re [] L =
     (if c = CHR ''/'' then Some ([], (indent @ ''- [/]'', rest, [(1, indent)])) else None)"
    unfolding L_def by (rule ace_progress [OF assms(1)])
  have d: "rx_search ace_done_re [] L =
     (if c = CHR ''x'' then Some ([], (indent @ ''- [x]'', rest, [(1, indent)])) else None)"
    unfolding L_def by (rule ace_done [OF assms(1)])
  from assms(2) consider "c = CHR '' ''" | "c = CHR ''/''" | "c = CHR ''x''"
    by (auto simp: is_status_def)
  then have "toggleTaskStatus_ace L = indent @ ''- ['' @ [next_status c] @ '']'' @ rest"
  proof cases
    case 1
    then show ?thesis
      by (simp add: toggleTaskStatus_ace_def js_test_def js_match_def js_replace_def p
          is_space_def next_status_def cap_text_def cap_def)
  next
    case 2
    then show ?thesis
      by (simp add: toggleTaskStatus_ace_def js_test_def js_match_def js_replace_def p g
          is_space_def next_status_def cap_text_def cap_def)
  next
    case 3
    then show ?thesis
      by (simp add: toggleTaskStatus_ace_def js_test_def js_match_def js_replace_def p g d
          is_space_def next_status_def cap_text_def cap_def)
  qed
  then show ?thesis by (simp only: L_def)
qed

lemma str_includes_iff: "str_includes s w \<longleftrightarrow> (\<exists>p q. s = p @ w @ q)"
proof (induction s)
  case Nil
  show ?case by auto
next
  case (Cons x xs)
  show ?case
  proof
    assume "str_includes (x # xs) w"
    then consider "take (length w) (x # xs) = w" | "str_includes xs w" by auto
    then show "\<exists>p q. x # xs = p @ w @ q"
    proof cases
      case 1
      then have "x # xs = [] @ w @ drop (length w) (x # xs)"
        by (metis append_Nil append_take_drop_id)
      then show ?thesis by blast
    next
      case 2
      with Cons.IH obtain p q where "xs = p @ w @ q" by blast
      then have "x # xs = (x # p) @ w @ q" by simp
      then show ?thesis by blast
    qed
  next
    assume "\<exists>p q. x # xs = p @ w @ q"
    then obtain p q where pq: "x # xs = p @ w @ q" by blast
    show "str_includes (x # xs) w"
    proof (cases p)
      case Nil
      with pq have "take (length w) (x # xs) = w" by simp
      then show ?thesis by simp
    next
      case (Cons a p')
      with pq have "xs = p' @ w @ q" by simp
      with Cons.IH have "str_includes xs w" by blast
      then show ?thesis by simp
    qed
  qed
qed

lemma count_occ_short: "length s < length w \<Longrightarrow> count_occ w s = 0"
  by (induction s) auto

lemma count_occ_self: "w \<noteq> [] \<Longrightarrow> count_occ w w = 1"
  by (cases w) (simp_all add: count_occ_short)

lemma no_straddle:
  assumes "\<not> str_includes l ''due:''" "l \<noteq> []"
  shows "take 4 (l @ CHR '' '' # r) \<noteq> ''due:''"
proof (cases "4 \<le> length l")
  case True
  then have "take 4 (l @ CHR '' '' # r) = take 4 l" by simp
  moreover have "take 4 l \<noteq> ''due:''"
  proof
    assume "take 4 l = ''due:''"
    then have "l = [] @ ''due:'' @ drop 4 l" by (metis append_Nil append_take_drop_id)
    then have "str_includes l ''due:''" unfolding str_includes_iff by blast
    with assms(1) show False by simp
  qed
  ultimately show ?thesis by simp
next
  case False
  then have "length l < 4" by simp
  then consider a where "l = [a]" | a b where "l = [a, b]" | a b c where "l = [a, b, c]"
    using assms(2)
    by (cases l; cases "tl l"; cases "tl (tl l)"; cases "tl (tl (tl l))") auto
  then show ?thesis by cases auto
qed

lemma count_occ_appended:
  assumes "\<not> str_includes l ''due:''"
  shows "count_occ (''due:'' @ d) (l @ '' due:'' @ d) = 1"
  using assms
proof (induction l)
  case Nil
  have "count_occ (''due:'' @ d) (''due:'' @ d) = 1" by (rule count_occ_self) simp
  then show ?case by simp
next
  case (Cons x xs)
  then have xs: "\<not> str_includes xs ''due:''" by simp
  have n: "take 4 ((x # xs) @ CHR '' '' # (''due:'' @ d)) \<noteq> ''due:''"
    by (rule no_straddle [OF Cons.prems]) simp
  have "take (length (''due:'' @ d)) ((x # xs) @ '' due:'' @ d) \<noteq> ''due:'' @ d"
  proof
    define L where "L = (x # xs) @ '' due:'' @ d"
    define w where "w = ''due:'' @ d"
    assume "take (length (''due:'' @ d)) ((x # xs) @ '' due:'' @ d) = ''due:'' @ d"
    then have e: "take (length w) L = w" by (simp only: L_def w_def)
    have "4 \<le> length w" by (simp add: w_def)
    then have "take 4 (take (length w) L) = take 4 L" by (simp add: min_def)
    then have "take 4 L = take 4 w" by (simp only: e)
    then have "take 4 L = ''due:''" by (simp add: w_def)
    with n show False by (simp add: L_def)
  qed
  with Cons.IH [OF xs] show ?case by simp
qed

lemma chr_step:
  "cat (chr a # rs) (d, t, c) =
     (case t of [] \<Rightarrow> [] | x # xs \<Rightarrow> if x = a then cat rs (d @ [a], xs, c) else [])"
  by (cases t) (simp_all add: cat.simps chr_def)

lemma lit_aux:
  "cat (map chr w @ rs) (d, t, c) =
     (if take (length w) t = w then cat rs (d @ w, drop (length w) t, c) else [])"
proof (induction w arbitrary: d t)
  case Nil
  show ?case by simp
next
  case (Cons a w)
  show ?case
  proof (cases t)
    case Nil
    then show ?thesis by (simp add: chr_step)
  next
    case (Cons x xs)
    then show ?thesis using Cons.IH [of "d @ [a]" xs] by (simp add: chr_step)
  qed
qed

lemma lit_step:
  "cat (lit w # rs) (d, t, c) =
     (if take (length w) t = w then cat rs (d @ w, drop (length w) t, c) else [])"
proof -
  from lit_aux [where rs = "[]"] have "lit w (d, t, c) =
     (if take (length w) t = w then [(d @ w, drop (length w) t, c)] else [])"
    by (simp add: lit_def cat.simps)
  then show ?thesis by (simp add: cat.simps)
qed

lemma rx_search_None:
  "(\<And>p q. t = p @ q \<Longrightarrow> r (d @ p, q, []) = []) \<Longrightarrow> rx_search r d t = None"
proof (induction t arbitrary: d)
  case Nil
  from Nil [of "[]" "[]"] show ?case by simp
next
  case (Cons x xs)
  have "r (d, x # xs, []) = []" using Cons.prems [of "[]" "x # xs"] by simp
  moreover have "rx_search r (d @ [x]) xs = None"
  proof (rule Cons.IH)
    fix p q assume "xs = p @ q"
    then show "r ((d @ [x]) @ p, q, []) = []" using Cons.prems [of "x # p" q] by simp
  qed
  ultimately show ?case by simp
qed

lemma due_b_test:
  assumes "\<not> str_includes line ''due:''"
  shows "\<not> js_test due_b_re line"
proof -
  have "due_b_re ([] @ p, q, []) = []" if "line = p @ q" for p q
  proof -
    have "take (length ''due:'') q \<noteq> ''due:''"
    proof
      assume "take (length ''due:'') q = ''due:''"
      then have "q = ''due:'' @ drop (length ''due:'') q" by (metis append_take_drop_id)
      with that have "line = p @ ''due:'' @ drop (length ''due:'') q" by simp
      with assms show False unfolding str_includes_iff by blast
    qed
    then have "cat [lit ''due:'', date_re, wordb] (p, q, []) = []"
      by (simp only: lit_step if_False)
    then show ?thesis
      by (simp add: due_b_re_def cat.simps(2) [of wordb])
  qed
  then have "rx_search due_b_re [] line = None" by (rule rx_search_None)
  then show ?thesis by (simp add: js_test_def js_match_def)
qed

lemma endsWith_space: "endsWith s '' '' \<longleftrightarrow> (\<exists>l. s = l @ '' '')"
proof
  assume "endsWith s '' ''"
  then have "drop (length s - 1) s = '' ''" by (simp add: endsWith_def)
  then have "s = take (length s - 1) s @ '' ''" by (metis append_take_drop_id)
  then show "\<exists>l. s = l @ '' ''" by blast
next
  assume "\<exists>l. s = l @ '' ''"
  then show "endsWith s '' ''" by (auto simp: endsWith_def)
qed

lemma concat_map_concat:
  "concat (map f (concat xss)) = concat (map (\<lambda>xs. concat (map f xs)) xss)"
  by (induction xss) simp_all

lemma cat_flatten: "cat (cat xs # rs) st = cat (xs @ rs) st"
proof (induction xs arbitrary: st)
  case Nil
  show ?case by (simp add: cat.simps)
next
  case (Cons a xs)
  have "cat (cat (a # xs) # rs) st = concat (map (\<lambda>s. cat (cat xs # rs) s) (a st))"
    by (simp add: cat.simps concat_map_concat comp_def)
  then show ?case by (simp only: Cons.IH) (simp add: cat.simps)
qed

lemma times_step:
  "cat (times n (one P) # rs) (d, t, c) =
     (if n \<le> length t \<and> list_all P (take n t) then cat rs (d @ take n t, drop n t, c) else [])"
proof (induction n arbitrary: d t)
  case 0
  show ?case by (simp add: cat.simps)
next
  case (Suc n)
  have "cat (times (Suc n) (one P) # rs) (d, t, c) =
        concat (map (cat (times n (one P) # rs)) (one P (d, t, c)))"
    by (simp add: cat_flatten) (simp add: cat.simps)
  also have "\<dots> = (if Suc n \<le> length t \<and> list_all P (take (Suc n) t)
                    then cat rs (d @ take (Suc n) t, drop (Suc n) t, c) else [])"
    by (cases t) (simp_all add: Suc.IH)
  finally show ?case .
qed











section \<open>Properties of the heading expression\<close>

lemma cat_single_fun: "cat [r] = r"
  by (rule ext) (simp add: cat_single)

lemma star_eol:
  "cat [star P, eol] (d, t, c) = (if list_all P t then [(d @ t, [], c)] else [])"
proof -
  have "concat (map eol (star P (d, t, c))) = (if list_all P t then [(d @ t, [], c)] else [])"
  proof (induction t arbitrary: d)
    case Nil
    show ?case by simp
  next
    case (Cons x xs)
    have "concat (map eol (star P (d, x # xs, c))) =
          concat (map eol (if P x then star P (d @ [x], xs, c) else []))"
      by simp
    then show ?case
      by (cases "P x") (simp_all only: Cons.IH if_True if_False, simp_all)
  qed
  then show ?thesis by (simp add: cat.simps(2) cat_single_fun)
qed

lemma star_lazy_first:
  assumes "k \<le> length (takeWhile P t)"
    and "\<And>j. j < k \<Longrightarrow> K (d @ take j t, drop j t, c) = []"
    and "K (d @ take k t, drop k t, c) \<noteq> []"
  shows "first (concat (map K (star_lazy P (d, t, c)))) = first (K (d @ take k t, drop k t, c))"
  using assms
proof (induction t arbitrary: d k)
  case Nil
  then show ?case by simp
next
  case (Cons x xs)
  show ?case
  proof (cases k)
    case 0
    with Cons.prems(3) show ?thesis
      by (simp add: first_append first_None_iff split: option.splits)
  next
    case (Suc k')
    with Cons.prems(1) have px: "P x" by (auto split: if_splits)
    have k0: "K (d, x # xs, c) = []" using Cons.prems(2) [of 0] Suc by simp
    have "first (concat (map K (star_lazy P (d @ [x], xs, c)))) =
          first (K ((d @ [x]) @ take k' xs, drop k' xs, c))"
    proof (rule Cons.IH)
      show "k' \<le> length (takeWhile P xs)" using Cons.prems(1) Suc px by simp
      show "K ((d @ [x]) @ take k' xs, drop k' xs, c) \<noteq> []"
        using Cons.prems(3) Suc by simp
      fix j assume "j < k'"
      then show "K ((d @ [x]) @ take j xs, drop j xs, c) = []"
        using Cons.prems(2) [of "Suc j"] Suc by simp
    qed
    then show ?thesis using px k0 Suc by simp
  qed
qed

lemma hex_not_space: "is_hex x \<Longrightarrow> \<not> is_space x"
  by (auto simp: is_hex_def is_space_def)

lemma space_not_hash: "is_space x \<Longrightarrow> x \<noteq> CHR ''#''"
  by (auto simp: is_space_def)

text \<open>The optional color at the end of a heading.\<close>

lemma color_re:
  "cat [plus is_space, grp 3 (cat [chr CHR ''#'', times 6 (one is_hex)])] (d, t, c) =
     (case dropWhile is_space t of
        [] \<Rightarrow> []
      | x # r \<Rightarrow>
          if x = CHR ''#'' \<and> takeWhile is_space t \<noteq> [] \<and> 6 \<le> length r \<and>
             list_all is_hex (take 6 r)
          then [(d @ takeWhile is_space t @ ''#'' @ take 6 r, drop 6 r,
                 (3, ''#'' @ take 6 r) # c)]
          else [])"
proof -
  let ?X = "cat [chr CHR ''#'', times 6 (one is_hex)]"
  have X: "?X (d', t', c') =
     (case t' of [] \<Rightarrow> [] | x # r \<Rightarrow>
        if x = CHR ''#'' \<and> 6 \<le> length r \<and> list_all is_hex (take 6 r)
        then [(d' @ ''#'' @ take 6 r, drop 6 r, c')] else [])" for d' t' c'
    by (cases t') (simp_all add: chr_step times_step cat.simps(1))
  have G: "cat [grp 3 ?X] (d', t', c') =
     (case t' of [] \<Rightarrow> [] | x # r \<Rightarrow>
        if x = CHR ''#'' \<and> 6 \<le> length r \<and> list_all is_hex (take 6 r)
        then [(d' @ ''#'' @ take 6 r, drop 6 r, (3, ''#'' @ take 6 r) # c')] else [])" for d' t' c'
    by (cases t') (simp_all add: cat_single X)
  have K: "cat [grp 3 ?X] (d', x # xs, c') = []" if "is_space x" for d' x xs c'
    using space_not_hash [OF that] by (simp add: G)
  have S: "cat [star is_space, grp 3 ?X] (d', t', c') =
           cat [grp 3 ?X] (d' @ takeWhile is_space t', dropWhile is_space t', c')" for d' t' c'
    using star_det [where K = "cat [grp 3 ?X]", OF K] by (simp add: cat.simps(2) [of "star is_space"])
  have "cat [plus is_space, grp 3 ?X] (d, t, c) =
        cat [one is_space, star is_space, grp 3 ?X] (d, t, c)"
    by (simp add: plus_def cat_flatten)
  also have "\<dots> = (case t of [] \<Rightarrow> [] | x # xs \<Rightarrow>
        if is_space x then cat [grp 3 ?X] (d @ [x] @ takeWhile is_space xs, dropWhile is_space xs, c)
        else [])"
    by (cases t) (simp_all add: cat.simps(2) [of "one is_space"] S)
  also have "\<dots> = (case dropWhile is_space t of
        [] \<Rightarrow> []
      | x # r \<Rightarrow>
          if x = CHR ''#'' \<and> takeWhile is_space t \<noteq> [] \<and> 6 \<le> length r \<and>
             list_all is_hex (take 6 r)
          then [(d @ takeWhile is_space t @ ''#'' @ take 6 r, drop 6 r,
                 (3, ''#'' @ take 6 r) # c)]
          else [])"
  proof (cases t)
    case Nil
    then show ?thesis by simp
  next
    case (Cons x xs)
    show ?thesis
    proof (cases "is_space x")
      case True
      then show ?thesis using Cons
        by (cases "dropWhile is_space xs") (simp_all add: G del: dropWhile_eq_Nil_conv)
    next
      case False
      then show ?thesis using Cons by simp
    qed
  qed
  finally show ?thesis .
qed

lemma heading_tail_split:
  "cat [opt (cat [plus is_space, grp 3 (cat [chr CHR ''#'', times 6 (one is_hex)])]),
        star is_space, eol] (d, t, c) =
   concat (map (cat [star is_space, eol])
     (cat [plus is_space, grp 3 (cat [chr CHR ''#'', times 6 (one is_hex)])] (d, t, c))) @
   cat [star is_space, eol] (d, t, c)"
  by (simp add: cat.simps(2) [of "opt _"] opt_def)

lemma heading_tail_color:
  assumes "ws2 \<noteq> []" "list_all is_space ws2" "length hex = 6" "list_all is_hex hex"
    "list_all is_space ws3"
  shows "cat [opt (cat [plus is_space, grp 3 (cat [chr CHR ''#'', times 6 (one is_hex)])]),
        star is_space, eol] (d, ws2 @ ''#'' @ hex @ ws3, c) =
     [(d @ ws2 @ ''#'' @ hex @ ws3, [], (3, ''#'' @ hex) # c)]"
proof -
  have w: "\<And>x. x \<in> set ws2 \<Longrightarrow> is_space x" using assms(2) by (simp add: list_all_iff)
  have ns: "\<not> is_space CHR ''#''" by (simp add: is_space_def)
  have dw: "dropWhile is_space (ws2 @ ''#'' @ hex @ ws3) = CHR ''#'' # hex @ ws3"
    using w ns by (simp add: dropWhile_append3)
  have tw: "takeWhile is_space (ws2 @ ''#'' @ hex @ ws3) = ws2"
    using w ns by (simp add: takeWhile_tail)
  have "\<not> list_all is_space (ws2 @ ''#'' @ hex @ ws3)" using ns by simp
  then have B: "cat [star is_space, eol] (d, ws2 @ ''#'' @ hex @ ws3, c) = []"
    by (simp only: star_eol if_False)
  have A: "cat [plus is_space, grp 3 (cat [chr CHR ''#'', times 6 (one is_hex)])]
             (d, ws2 @ ''#'' @ hex @ ws3, c) =
           [(d @ ws2 @ ''#'' @ hex, ws3, (3, ''#'' @ hex) # c)]"
    using assms(1,3,4) by (simp only: color_re dw tw list.case) simp
  show ?thesis
    by (simp only: heading_tail_split A B) (simp add: star_eol assms(5))
qed

lemma heading_tail_none:
  assumes "u \<noteq> []" "\<not> is_space (last u)" "ws2 \<noteq> []" "length hex = 6" "list_all is_hex hex"
  shows "cat [opt (cat [plus is_space, grp 3 (cat [chr CHR ''#'', times 6 (one is_hex)])]),
        star is_space, eol] (d, u @ ws2 @ ''#'' @ hex @ ws3, c) = []"
proof -
  let ?t = "u @ ws2 @ ''#'' @ hex @ ws3"
  have lu: "last u \<in> set u" using assms(1) by simp
  then have "\<not> list_all is_space ?t" using assms(2) by (auto simp: list_all_iff)
  then have B: "cat [star is_space, eol] (d, ?t, c) = []"
    by (simp only: star_eol if_False)
  have dw: "dropWhile is_space ?t = dropWhile is_space u @ ws2 @ ''#'' @ hex @ ws3"
    using lu assms(2) by (simp add: dropWhile_append1)
  have hx1: "hex \<noteq> []" using assms(4) by auto
  then have "last hex \<in> set hex" by simp
  then have hx2: "is_hex (last hex)" using assms(5) by (simp add: list_all_iff)
  have A: "concat (map (cat [star is_space, eol])
     (cat [plus is_space, grp 3 (cat [chr CHR ''#'', times 6 (one is_hex)])] (d, ?t, c))) = []"
  proof (cases "dropWhile is_space u")
    case Nil
    then have "\<forall>x\<in>set u. is_space x" by simp
    with lu assms(2) show ?thesis by blast
  next
    case (Cons x r')
    define front where "front = r' @ ws2 @ ''#'' @ hex"
    define rr where "rr = front @ ws3"
    have d: "dropWhile is_space ?t = x # rr" using dw Cons by (simp add: rr_def front_def)
    have l: "6 < length front" using assms(3,4) by (cases ws2) (simp_all add: front_def)
    have "last front = last hex" using hx1 by (simp add: front_def)
    moreover have "front \<noteq> []" using l by auto
    ultimately have "front = butlast front @ [last hex]" by (metis append_butlast_last_id)
    moreover have "6 \<le> length (butlast front)" using l by simp
    ultimately have "drop 6 front = drop 6 (butlast front) @ [last hex]"
      by (metis drop_append diff_is_0_eq drop_0)
    then have "last hex \<in> set (drop 6 rr)" by (simp add: rr_def)
    then have n: "\<not> list_all is_space (drop 6 rr)"
      using hex_not_space [OF hx2] by (auto simp: list_all_iff)
    show ?thesis
      by (simp only: color_re d list.case) (simp add: star_eol n)
  qed
  show ?thesis by (simp only: heading_tail_split A B) simp
qed

lemma hashes3:
  assumes "is_space w"
  shows "cat (grp 1 (rep 1 3 (chr CHR ''#'')) # plus is_space # rs) ([], ''###'' @ w # r, []) =
         cat (star is_space # rs) (''###'' @ [w], r, [(1, ''###'')])"
  using assms space_not_hash [OF assms] space_not_hash [of "CHR ''#''"]
  by (auto simp add: rep_def numeral_2_eq_2 plus_def cat_flatten cat.simps chr_def opt_def
      cat_Nil_fun)

lemma hashes4:
  "cat (grp 1 (rep 1 3 (chr CHR ''#'')) # plus is_space # rs) ([], ''####'' @ r, []) = []"
  using space_not_hash [of "CHR ''#''"]
  by (auto simp add: rep_def numeral_2_eq_2 plus_def cat_flatten cat.simps chr_def opt_def
      cat_Nil_fun)

lemma js_match_heading3:
  assumes ws1: "ws1 \<noteq> []" "list_all is_space ws1"
    and title: "title \<noteq> []" "\<not> is_space (hd title)" "\<not> is_space (last title)"
      "list_all is_dot title"
    and ws2: "ws2 \<noteq> []" "list_all is_space ws2"
    and hex: "length hex = 6" "list_all is_hex hex"
    and ws3: "list_all is_space ws3"
  shows "js_match heading_re (''###'' @ ws1 @ title @ ws2 @ ''#'' @ hex @ ws3) =
     Some [(0, ''###'' @ ws1 @ title @ ws2 @ ''#'' @ hex @ ws3), (3, ''#'' @ hex), (2, title),
       (1, ''###'')]"
proof -
  define tail where "tail = ws2 @ ''#'' @ hex @ ws3"
  define T3 where "T3 = [opt (cat [plus is_space, grp 3 (cat [chr CHR ''#'', times 6 (one is_hex)])]),
        star is_space, eol]"
  define c1 :: captures where "c1 = [(1, ''###'')]"
  from ws1 obtain w ws1' where w: "ws1 = w # ws1'" "is_space w" "list_all is_space ws1'"
    by (cases ws1) auto
  define D2 where "D2 = ''###'' @ [w] @ ws1'"
  have D2: "D2 = ''###'' @ ws1" by (simp add: D2_def w(1))
  obtain h title' where t: "title = h # title'" "\<not> is_space h"
    using title(1,2) by (cases title) auto
  \<comment> \<open>the tail expression on the states of the lazy star\<close>
  have none: "cat T3 (D2 @ take j title, drop j title @ tail, (2, take j title) # c1) = []"
    if "j < length title" for j
  proof -
    have "drop j title \<noteq> []" using that by simp
    moreover have "last (drop j title) = last title" using that by (rule last_drop)
    ultimately show ?thesis
      unfolding T3_def tail_def
      using heading_tail_none [of "drop j title" ws2 hex _ ws3] title(3) ws2(1) hex by simp
  qed
  have col: "cat T3 (D2 @ title, tail, (2, title) # c1) =
     [(D2 @ title @ tail, [], (3, ''#'' @ hex) # (2, title) # c1)]"
    unfolding T3_def tail_def
    using heading_tail_color [OF ws2 hex ws3, of "D2 @ title" "(2, title) # c1"] by simp
  \<comment> \<open>the lazy star stops after the title\<close>
  let ?K = "\<lambda>st. cat T3 (case st of (d', t', c') \<Rightarrow> (d', t', (2, drop (length D2) d') # c'))"
  have lazy: "first (concat (map ?K (star_lazy is_dot (D2, title @ tail, c1)))) =
              first (?K (D2 @ take (length title) (title @ tail),
                         drop (length title) (title @ tail), c1))"
  proof (rule star_lazy_first)
    have "takeWhile is_dot (title @ tail) = title @ takeWhile is_dot tail"
      using title(4) by (simp add: takeWhile_append2 list_all_iff)
    then show "length title \<le> length (takeWhile is_dot (title @ tail))" by simp
    show "?K (D2 @ take (length title) (title @ tail), drop (length title) (title @ tail), c1) \<noteq> []"
      using col by simp
    fix j assume "j < length title"
    then show "?K (D2 @ take j (title @ tail), drop j (title @ tail), c1) = []"
      using none [of j] by simp
  qed
  have K2: "first (cat (grp 2 (star_lazy is_dot) # T3) (D2, title @ tail, c1)) =
            Some (D2 @ title @ tail, [], (3, ''#'' @ hex) # (2, title) # c1)"
  proof -
    have "cat (grp 2 (star_lazy is_dot) # T3) (D2, title @ tail, c1) =
          concat (map ?K (star_lazy is_dot (D2, title @ tail, c1)))"
      by (simp only: cat.simps(2) grp.simps map_map comp_def)
    then show ?thesis using lazy col by simp
  qed
  \<comment> \<open>the white space after the hashes is taken whole\<close>
  have tw: "takeWhile is_space (ws1' @ title @ tail) = ws1'"
    using w(3) t by (simp add: takeWhile_tail list_all_iff)
  have dw: "dropWhile is_space (ws1' @ title @ tail) = title @ tail"
    using w(3) t by (simp add: dropWhile_append3 list_all_iff)
  have S: "first (cat (star is_space # grp 2 (star_lazy is_dot) # T3)
             (''###'' @ [w], ws1' @ title @ tail, c1)) =
           Some (D2 @ title @ tail, [], (3, ''#'' @ hex) # (2, title) # c1)"
  proof -
    let ?K2 = "cat (grp 2 (star_lazy is_dot) # T3)"
    have ne: "?K2 ((''###'' @ [w]) @ takeWhile is_space (ws1' @ title @ tail),
                 dropWhile is_space (ws1' @ title @ tail), c1) \<noteq> []"
      using K2 by (simp only: tw dw D2_def [symmetric] append_assoc) auto
    from star_first_max [where K = ?K2 and P = is_space, OF ne]
    have "first (concat (map ?K2 (star is_space (''###'' @ [w], ws1' @ title @ tail, c1)))) =
          first (?K2 (D2, title @ tail, c1))"
      by (simp only: tw dw D2_def [symmetric] append_assoc)
    then show ?thesis by (simp only: cat.simps(2) [of "star is_space"] K2)
  qed
  have "first (cat (grp 1 (rep 1 3 (chr CHR ''#'')) # plus is_space # grp 2 (star_lazy is_dot) # T3)
          ([], ''###'' @ w # ws1' @ title @ tail, [])) =
        Some (D2 @ title @ tail, [], (3, ''#'' @ hex) # (2, title) # c1)"
    by (simp only: hashes3 [OF w(2)] S c1_def [symmetric])
  then have "rx_search heading_re [] (''###'' @ w # ws1' @ title @ tail) =
        Some ([], (D2 @ title @ tail, [], (3, ''#'' @ hex) # (2, title) # c1))"
    by (simp only: heading_re_def rx_search_bol T3_def) simp
  then show ?thesis
    by (simp add: js_match_def D2 w(1) tail_def c1_def)
qed

lemma trim_id:
  assumes "s \<noteq> []" "\<not> is_space (hd s)" "\<not> is_space (last s)"
  shows "trim s = s"
proof -
  have "dropWhile is_space s = s" using assms(1,2) by (cases s) simp_all
  moreover have "dropWhile is_space (rev s) = rev s"
    using assms(1,3) by (cases "rev s") (simp_all add: last_rev [symmetric] hd_rev)
  ultimately show ?thesis by (simp add: trim_def)
qed

lemma four_hashes_no_match:
  "js_match heading_re (''####'' @ rest) = None" "js_match task_re (''####'' @ rest) = None"
proof -
  show "js_match heading_re (''####'' @ rest) = None"
    by (simp only: js_match_def heading_re_def rx_search_bol hashes4) simp
  have "split_prefix is_bullet (''####'' @ rest) = None"
    by (simp add: split_prefix_def is_space_def is_bullet_def)
  then show "js_match task_re (''####'' @ rest) = None"
    by (simp add: js_match_task split_item_def)
qed

section \<open>Scenarios of the parser\<close>

text \<open>
  Claim C1, as the code has it. Parsing the single task line
  \<^verbatim>\<open>- [ ] buy milk +grocery due:2025-01-20 (a)\<close> yields one task with status
  \<open>backlog\<close> (pending) and priority \<open>a\<close>; its \<open>tags\<close> field is the string
  \<^verbatim>\<open>+grocery\<close> (the matches of the tag expression joined by a space, each with its
  \<open>+\<close>), and its \<open>due\<close> field is the whole matched field \<^verbatim>\<open>due:2025-01-20\<close>, prefix
  included.
\<close>

theorem C1_parse_scenario:
  "parseTasks (Some (getLinesContent ''- [ ] buy milk +grocery due:2025-01-20 (a)'')) =
     [\<lparr>task_id = ''ln-1'', lineNumber = 1, status = ''backlog'',
       task_text = ''buy milk +grocery due:2025-01-20 (a)'', heading = None,
       color = ''#1976D2'', tags = ''+grocery'', due = Some ''due:2025-01-20'',
       start = None, priority = Some ''a''\<rparr>]"
  by code_simp

text \<open>
  Claim C1 as stated fails: the \<open>due\<close> field is not the bare date \<^verbatim>\<open>2025-01-20\<close>
  and the \<open>tags\<close> field does not hold the bare name \<^verbatim>\<open>grocery\<close>.
\<close>

theorem C1_counterexample:
  "map due (parseTasks (Some (getLinesContent ''- [ ] buy milk +grocery due:2025-01-20 (a)'')))
     \<noteq> [Some ''2025-01-20'']
   \<and> map tags (parseTasks (Some (getLinesContent ''- [ ] buy milk +grocery due:2025-01-20 (a)'')))
     \<noteq> [''grocery'']"
  by code_simp

text \<open>
  Claim C5. Parsing the five-line document \<^verbatim>\<open># A\<close>, \<^verbatim>\<open>## B #FF0000\<close>, \<^verbatim>\<open>- [ ] t1\<close>,
  \<^verbatim>\<open># C\<close>, \<^verbatim>\<open>- [ ] t2\<close> yields \<open>t1\<close> with heading \<open>B\<close> and color \<^verbatim>\<open>#FF0000\<close>, and
  \<open>t2\<close> with heading \<open>C\<close> and the same color \<^verbatim>\<open>#FF0000\<close>: the heading \<^verbatim>\<open># C\<close>, which
  carries no color, replaces the heading tracker and leaves the color tracker as it was.
\<close>

theorem C5_heading_inheritance:
  "parseTasks (Some (getLinesContent
      (''# A'' @ [CHR 0x0A] @ ''## B #FF0000'' @ [CHR 0x0A] @ ''- [ ] t1'' @ [CHR 0x0A] @
       ''# C'' @ [CHR 0x0A] @ ''- [ ] t2''))) =
     [\<lparr>task_id = ''ln-3'', lineNumber = 3, status = ''backlog'', task_text = ''t1'',
       heading = Some ''B'', color = ''#FF0000'', tags = [], due = None, start = None,
       priority = None\<rparr>,
      \<lparr>task_id = ''ln-5'', lineNumber = 5, status = ''backlog'', task_text = ''t2'',
       heading = Some ''C'', color = ''#FF0000'', tags = [], due = None, start = None,
       priority = None\<rparr>]
   \<and> parse_line 3 ''# C'' \<lparr>lastHeading = Some ''B'', lastColor = ''#FF0000'', tasks = []\<rparr> =
       \<lparr>lastHeading = Some ''C'', lastColor = ''#FF0000'', tasks = []\<rparr>"
  by code_simp

section \<open>Claims about the line patchers\<close>

text \<open>
  Claim C2, as the code has it. On a task line whose bullet is a dash, that is
  indentation, \<open>-\<close>, white space (possibly none), \<open>[\<close>, a state character, \<open>]\<close> and any
  rest, \<open>toggleTaskStatus\<close> replaces the state character by its successor in the cycle
  space, \<open>/\<close>, \<open>x\<close>, space and changes nothing else, so that three applications give the
  line back. The command of \<open>app.js\<close> does the same on lines that have exactly one
  space between the dash and the bracket.
\<close>

theorem C2_toggle_cycles_dash_tasks:
  assumes "list_all is_space indent" and "list_all is_space ws" and "is_status c"
  shows "toggleTaskStatus (indent @ ''-'' @ ws @ ''['' @ [c] @ '']'' @ rest) =
           indent @ ''-'' @ ws @ ''['' @ [next_status c] @ '']'' @ rest
       \<and> toggleTaskStatus (toggleTaskStatus (toggleTaskStatus
             (indent @ ''-'' @ ws @ ''['' @ [c] @ '']'' @ rest))) =
           indent @ ''-'' @ ws @ ''['' @ [c] @ '']'' @ rest
       \<and> toggleTaskStatus_ace (indent @ ''- ['' @ [c] @ '']'' @ rest) =
           indent @ ''- ['' @ [next_status c] @ '']'' @ rest
       \<and> toggleTaskStatus_ace (toggleTaskStatus_ace (toggleTaskStatus_ace
             (indent @ ''- ['' @ [c] @ '']'' @ rest))) =
           indent @ ''- ['' @ [c] @ '']'' @ rest"
proof -
  note n = is_status_next [OF assms(3)]
  note nn = is_status_next [OF n]
  have a: "toggleTaskStatus (indent @ ''-'' @ ws @ ''['' @ [c] @ '']'' @ rest) =
           indent @ ''-'' @ ws @ ''['' @ [next_status c] @ '']'' @ rest"
    by (rule toggle_dash [OF assms])
  have b: "toggleTaskStatus (toggleTaskStatus (toggleTaskStatus
             (indent @ ''-'' @ ws @ ''['' @ [c] @ '']'' @ rest))) =
           indent @ ''-'' @ ws @ ''['' @ [c] @ '']'' @ rest"
    by (simp only: toggle_dash [OF assms(1,2)] assms(3) n nn next_status_thrice [OF assms(3)])
  have c: "toggleTaskStatus_ace (indent @ ''- ['' @ [c] @ '']'' @ rest) =
           indent @ ''- ['' @ [next_status c] @ '']'' @ rest"
    by (rule toggle_ace_dash [OF assms(1,3)])
  have d: "toggleTaskStatus_ace (toggleTaskStatus_ace (toggleTaskStatus_ace
             (indent @ ''- ['' @ [c] @ '']'' @ rest))) =
           indent @ ''- ['' @ [c] @ '']'' @ rest"
    by (simp only: toggle_ace_dash [OF assms(1)] assms(3) n nn next_status_thrice [OF assms(3)])
  from a b c d show ?thesis by blast
qed

text \<open>
  Claim C2 as stated fails on a task line with another bullet: the line \<^verbatim>\<open>* [ ] t\<close>
  keeps its state character under \<open>toggleTaskStatus\<close>, and the command of \<open>app.js\<close>
  rewrites it to \<^verbatim>\<open>- [ ] * [ ] t\<close>.
\<close>

theorem C2_counterexample:
  "toggleTaskStatus ''* [ ] t'' = ''* [ ] t'' \<and>
   toggleTaskStatus_ace ''* [ ] t'' = ''- [ ] * [ ] t''"
  by code_simp

text \<open>The hypotheses of C2 hold for the line \<^verbatim>\<open>  - [/] call\<close>.\<close>

theorem C2_witness:
  "list_all is_space ''  '' \<and> list_all is_space '' '' \<and> is_status CHR ''/'' \<and>
   toggleTaskStatus ''  - [/] call'' = ''  - [x] call'' \<and>
   toggleTaskStatus (toggleTaskStatus (toggleTaskStatus ''  - [/] call'')) = ''  - [/] call'' \<and>
   toggleTaskStatus_ace ''  - [/] call'' = ''  - [x] call'' \<and>
   toggleTaskStatus_ace (toggleTaskStatus_ace (toggleTaskStatus_ace ''  - [/] call'')) =
     ''  - [/] call''"
proof -
  have h: "list_all is_space ''  ''" "list_all is_space '' ''" "is_status CHR ''/''"
    by (simp_all add: is_space_def is_status_def)
  from C2_toggle_cycles_dash_tasks [OF h, of "'' call''"] h show ?thesis
    by (simp (no_asm_use) add: next_status_def)
qed

text \<open>
  Claim C3, as the code has it. For every line that does not contain the text \<open>due:\<close>,
  \<open>addTodaysDate\<close> and the due step of \<open>updateTaskDatesAtLine\<close> return the line
  followed by \<open>due:d\<close>, with one space in between unless the line ends with the space
  character; the line is a prefix of the result, and the result has exactly one
  occurrence of \<open>due:d\<close>.
\<close>

theorem C3_append_due_field:
  assumes "\<not> str_includes line ''due:''"
  shows "addTodaysDate d line = line @ (if endsWith line '' '' then [] else '' '') @ ''due:'' @ d
       \<and> take (length line) (addTodaysDate d line) = line
       \<and> setDueField d line = addTodaysDate d line
       \<and> count_occ (''due:'' @ d) (addTodaysDate d line) = 1"
proof -
  have a: "addTodaysDate d line = line @ (if endsWith line '' '' then [] else '' '') @ ''due:'' @ d"
    using assms by (simp add: addTodaysDate_def)
  have b: "setDueField d line = addTodaysDate d line"
    using due_b_test [OF assms] by (simp add: setDueField_def a)
  have c: "count_occ (''due:'' @ d) (addTodaysDate d line) = 1"
  proof (cases "endsWith line '' ''")
    case True
    then obtain l where l: "line = l @ '' ''" unfolding endsWith_space by blast
    have n: "\<not> str_includes l ''due:''"
    proof
      assume "str_includes l ''due:''"
      then obtain p q where "l = p @ ''due:'' @ q" unfolding str_includes_iff by blast
      then have "line = p @ ''due:'' @ (q @ '' '')" using l by simp
      with assms show False unfolding str_includes_iff by blast
    qed
    have e: "addTodaysDate d line = l @ '' due:'' @ d" using a True l by simp
    show ?thesis unfolding e by (rule count_occ_appended [OF n])
  next
    case False
    from count_occ_appended [OF assms, of d] show ?thesis using False by (simp add: a)
  qed
  have p: "take (length line) (addTodaysDate d line) = line" by (simp add: a)
  from a p b c show ?thesis by blast
qed

text \<open>
  Claim C3 as stated fails on a line that ends with white space other than the space
  character: after a tab the separating space is inserted all the same.
\<close>

theorem C3_counterexample:
  "\<not> str_includes [CHR ''a'', CHR 0x09] ''due:'' \<and> is_space (last [CHR ''a'', CHR 0x09]) \<and>
   addTodaysDate ''2025-01-20'' [CHR ''a'', CHR 0x09] =
     [CHR ''a'', CHR 0x09] @ '' '' @ ''due:2025-01-20''"
  by code_simp

text \<open>The hypothesis of C3 holds for the line \<^verbatim>\<open>- [ ] pay rent\<close>.\<close>

theorem C3_witness:
  "\<not> str_includes ''- [ ] pay rent'' ''due:'' \<and>
   addTodaysDate ''2025-01-20'' ''- [ ] pay rent'' = ''- [ ] pay rent due:2025-01-20'' \<and>
   setDueField ''2025-01-20'' ''- [ ] pay rent'' = ''- [ ] pay rent due:2025-01-20'' \<and>
   count_occ ''due:2025-01-20'' ''- [ ] pay rent due:2025-01-20'' = 1"
proof -
  have h: "\<not> str_includes ''- [ ] pay rent'' ''due:''" by code_simp
  have e: "\<not> endsWith ''- [ ] pay rent'' '' ''" by code_simp
  from C3_append_due_field [OF h, of "''2025-01-20''"] show ?thesis
    by (simp (no_asm_use) add: h e, simp)
qed




section \<open>Write-back of a status from the Kanban board\<close>

text \<open>
  Claim C6. For every document and every task that \<open>parseTasks\<close> finds in it, the
  Kanban write-back \<open>updateTaskStatusAtLine\<close> with the task's line number and the
  task's own status as target returns the document as it is.
\<close>

theorem C6_same_status_is_noop:
  "\<forall>t\<in>set (parseTasks (Some doc)).
     updateTaskStatusAtLine (Some doc) (lineNumber t) (status t) = Inr doc"
proof
  fix t assume t: "t \<in> set (parseTasks (Some doc))"
  from t obtain indent b ws c rest where
    i: "split_item is_bullet (doc ! (lineNumber t - 1)) = Some (indent, b, ws, c, rest)"
    and s: "status t = status_of (Some [c])"
    by (rule task_line_split)
  note d = split_item_SomeD [OF i]
  have g: "getLineContent doc (lineNumber t) = Inr (doc ! (lineNumber t - 1))"
    using parseTasks_from_line(1,2) [OF t] by (simp add: getLineContent_def)
  have "js_replace status_re (\<lambda>m. cap_text m 1 @ mapped (status t) @ cap_text m 3)
          (doc ! (lineNumber t - 1)) = doc ! (lineNumber t - 1)"
    by (simp only: status_re_replace i option.case prod.case s mapped_status_of [OF d(5)] d(1) [symmetric])
  then show "updateTaskStatusAtLine (Some doc) (lineNumber t) (status t) = Inr doc"
    by (simp add: updateTaskStatusAtLine_def g)
qed

text \<open>
  A document with a task in progress on line 2: the hypothesis of C6 holds for that task,
  and writing its status back leaves the document unchanged.
\<close>

theorem C6_witness:
  "\<lparr>task_id = ''ln-2'', lineNumber = 2, status = ''inprogress'', task_text = ''write report'',
     heading = Some ''Work'', color = ''#1976D2'', tags = [], due = None, start = None,
     priority = None\<rparr> \<in> set (parseTasks (Some [''# Work'', ''  * [/] write report'']))
   \<and> updateTaskStatusAtLine (Some [''# Work'', ''  * [/] write report'']) 2 ''inprogress'' =
       Inr [''# Work'', ''  * [/] write report'']"
proof -
  let ?t = "\<lparr>task_id = ''ln-2'', lineNumber = 2, status = ''inprogress'', task_text = ''write report'',
     heading = Some ''Work'', color = ''#1976D2'', tags = [], due = None, start = None,
     priority = None\<rparr>"
  have m: "?t \<in> set (parseTasks (Some [''# Work'', ''  * [/] write report'']))"
    by code_simp
  from C6_same_status_is_noop [of "[''# Work'', ''  * [/] write report'']"] m
  have "updateTaskStatusAtLine (Some [''# Work'', ''  * [/] write report'']) (lineNumber ?t) (status ?t) =
       Inr [''# Work'', ''  * [/] write report'']"
    by blast
  with m show ?thesis by simp
qed

text \<open>
  Claim C7. If \<open>parseTasks\<close> finds a pending task (status \<open>backlog\<close>) on line \<open>N\<close>,
  then dropping it on the \<open>done\<close> column succeeds and yields a document of the same
  length in which every other line is unchanged, and line \<open>N\<close> has gone from
  \<open>p [ ] rest\<close> to \<open>p [x] rest\<close>, where \<open>p\<close> is the indentation, the bullet and the
  white space before the bracket.
\<close>

theorem C7_drop_on_done:
  assumes "t \<in> set (parseTasks (Some doc))" and "status t = ''backlog''"
  shows "\<exists>p rest doc'.
     updateTaskStatusAtLine (Some doc) (lineNumber t) ''done'' = Inr doc' \<and>
     length doc' = length doc \<and>
     (\<forall>k<length doc. k \<noteq> lineNumber t - 1 \<longrightarrow> doc' ! k = doc ! k) \<and>
     list_all (\<lambda>x. is_space x \<or> is_bullet x) p \<and>
     doc ! (lineNumber t - 1) = p @ ''[ ]'' @ rest \<and>
     doc' ! (lineNumber t - 1) = p @ ''[x]'' @ rest"
proof -
  from assms(1) obtain indent b ws c rest where
    i: "split_item is_bullet (doc ! (lineNumber t - 1)) = Some (indent, b, ws, c, rest)"
    and s: "status t = status_of (Some [c])"
    by (rule task_line_split)
  note d = split_item_SomeD [OF i]
  have c: "c = CHR '' ''"
    using assms(2) s d(5) by (auto simp: status_of_def is_status_def split: if_splits)
  let ?n = "lineNumber t - 1"
  let ?p = "indent @ [b] @ ws"
  let ?new = "?p @ ''[x]'' @ rest"
  have r: "1 \<le> lineNumber t" "lineNumber t \<le> length doc"
    using parseTasks_from_line(1,2) [OF assms(1)] by simp_all
  have g: "getLineContent doc (lineNumber t) = Inr (doc ! ?n)"
    using r by (simp add: getLineContent_def)
  have old: "doc ! ?n = ?p @ ''[ ]'' @ rest" using d(1) c by simp
  have "js_replace status_re (\<lambda>m. cap_text m 1 @ mapped ''done'' @ cap_text m 3) (doc ! ?n) = ?new"
    by (simp only: status_re_replace i option.case prod.case) (simp add: mapped_def)
  moreover have "?new \<noteq> doc ! ?n" using old by simp
  ultimately have u: "updateTaskStatusAtLine (Some doc) (lineNumber t) ''done'' = Inr (doc[?n := ?new])"
    by (simp add: updateTaskStatusAtLine_def g)
  have p: "list_all (\<lambda>x. is_space x \<or> is_bullet x) ?p"
    using d(2,3,4) by (auto simp: list_all_iff)
  have n: "?n < length doc" using r by arith
  show ?thesis
    apply (rule exI [of _ ?p], rule exI [of _ rest], rule exI [of _ "doc[?n := ?new]"])
    using u p old n by simp
qed

text \<open>A pending task on line 2 of a two-line document, dropped on \<open>done\<close>.\<close>

theorem C7_witness:
  "\<exists>p rest doc'.
     updateTaskStatusAtLine (Some [''# Work'', ''  * [ ] write report'']) 2 ''done'' = Inr doc' \<and>
     length doc' = length [''# Work'', ''  * [ ] write report''] \<and>
     (\<forall>k<length [''# Work'', ''  * [ ] write report'']. k \<noteq> 2 - 1 \<longrightarrow>
        doc' ! k = [''# Work'', ''  * [ ] write report''] ! k) \<and>
     list_all (\<lambda>x. is_space x \<or> is_bullet x) p \<and>
     [''# Work'', ''  * [ ] write report''] ! (2 - 1) = p @ ''[ ]'' @ rest \<and>
     doc' ! (2 - 1) = p @ ''[x]'' @ rest"
proof -
  let ?t = "\<lparr>task_id = ''ln-2'', lineNumber = 2, status = ''backlog'', task_text = ''write report'',
     heading = Some ''Work'', color = ''#1976D2'', tags = [], due = None, start = None,
     priority = None\<rparr>"
  let ?doc = "[''# Work'', ''  * [ ] write report'']"
  have m: "?t \<in> set (parseTasks (Some ?doc))" by code_simp
  have s: "status ?t = ''backlog''" by simp
  from C7_drop_on_done [OF m s] show ?thesis by simp
qed

section \<open>Which lines are tasks\<close>

text \<open>
  Claim C8, as the code has it. \<open>parseTasks\<close> emits a task for line \<open>n\<close> exactly when
  that line is: white space (possibly none), one bullet out of \<open>-\<close>, \<open>*\<close>, \<open>+\<close>, white
  space (possibly none), \<open>[\<close>, one state character out of space, \<open>x\<close>, \<open>/\<close>, then \<open>]\<close>,
  white space (possibly none) and a body free of line terminators. White space between
  the bullet and the bracket is optional.
\<close>

theorem C8_task_grammar:
  "(\<exists>t\<in>set (parseTasks (Some doc)). lineNumber t = n) \<longleftrightarrow>
     1 \<le> n \<and> n \<le> length doc \<and>
     (\<exists>indent b ws c ws' body.
        doc ! (n - 1) = indent @ [b] @ ws @ ''['' @ [c] @ '']'' @ ws' @ body \<and>
        list_all is_space indent \<and> is_bullet b \<and> list_all is_space ws \<and> is_status c \<and>
        list_all is_space ws' \<and> list_all is_dot body)"
proof
  assume "\<exists>t\<in>set (parseTasks (Some doc)). lineNumber t = n"
  then obtain t where t: "t \<in> set (parseTasks (Some doc))" and n: "lineNumber t = n" by blast
  from parseTasks_from_line [OF t] n
  have "1 \<le> n" "n \<le> length doc" "js_match task_re (doc ! (n - 1)) \<noteq> None"
    by (auto simp: from_line_def)
  then show "1 \<le> n \<and> n \<le> length doc \<and>
     (\<exists>indent b ws c ws' body.
        doc ! (n - 1) = indent @ [b] @ ws @ ''['' @ [c] @ '']'' @ ws' @ body \<and>
        list_all is_space indent \<and> is_bullet b \<and> list_all is_space ws \<and> is_status c \<and>
        list_all is_space ws' \<and> list_all is_dot body)"
    by (simp only: task_grammar_iff)
next
  assume a: "1 \<le> n \<and> n \<le> length doc \<and>
     (\<exists>indent b ws c ws' body.
        doc ! (n - 1) = indent @ [b] @ ws @ ''['' @ [c] @ '']'' @ ws' @ body \<and>
        list_all is_space indent \<and> is_bullet b \<and> list_all is_space ws \<and> is_status c \<and>
        list_all is_space ws' \<and> list_all is_dot body)"
  then have m: "js_match task_re (doc ! (n - 1)) \<noteq> None"
    using task_grammar_iff [of "doc ! (n - 1)"] by blast
  from a have "n - 1 < length doc" by arith
  from parseTasks_complete [OF this m] a
  show "\<exists>t\<in>set (parseTasks (Some doc)). lineNumber t = n" by simp
qed

text \<open>
  Claim C8 as stated fails: the line \<^verbatim>\<open>-[ ] t\<close>, whose bullet is followed by \<open>[\<close> at
  once, is parsed as a task (the one with line number 1).
\<close>

theorem C8_counterexample:
  "map lineNumber (parseTasks (Some [''-[ ] t''])) = [1]"
  by code_simp

text \<open>Both sides of C8 hold for line 2 of a two-line document.\<close>

theorem C8_witness:
  "(\<exists>t\<in>set (parseTasks (Some [''intro'', ''-[x]done''])). lineNumber t = 2) \<and>
   (1::nat) \<le> 2 \<and> (2::nat) \<le> length [''intro'', ''-[x]done''] \<and>
     (\<exists>indent b ws c ws' body.
        [''intro'', ''-[x]done''] ! (2 - 1) = indent @ [b] @ ws @ ''['' @ [c] @ '']'' @ ws' @ body \<and>
        list_all is_space indent \<and> is_bullet b \<and> list_all is_space ws \<and> is_status c \<and>
        list_all is_space ws' \<and> list_all is_dot body)"
proof -
  have "\<exists>t\<in>set (parseTasks (Some [''intro'', ''-[x]done''])). lineNumber t = 2"
    by code_simp
  with C8_task_grammar [of "[''intro'', ''-[x]done'']" 2] show ?thesis by blast
qed

section \<open>Heading levels\<close>

text \<open>
  Claim C9. A line made of three hashes, white space, a title (not empty, free of line
  terminators, with no white space at either end), white space, \<open>#\<close> with six
  hexadecimal digits and possibly white space after them matches the heading expression
  with the title in group 2 and the color in group 3, and the loop body of the parser sets both trackers from it. A line
  that starts with four hashes does not match the heading expression and leaves the state
  of the parser (both trackers and the task list) as it was.
\<close>

theorem C9_heading_levels:
  assumes "ws1 \<noteq> []" and "list_all is_space ws1"
    and "title \<noteq> []" and "\<not> is_space (hd title)" and "\<not> is_space (last title)"
    and "list_all is_dot title"
    and "ws2 \<noteq> []" and "list_all is_space ws2"
    and "length hex = 6" and "list_all is_hex hex"
    and "list_all is_space ws3"
  shows "js_match heading_re (''###'' @ ws1 @ title @ ws2 @ ''#'' @ hex @ ws3) =
           Some [(0, ''###'' @ ws1 @ title @ ws2 @ ''#'' @ hex @ ws3), (3, ''#'' @ hex),
                 (2, title), (1, ''###'')]
       \<and> parse_line i (''###'' @ ws1 @ title @ ws2 @ ''#'' @ hex @ ws3) st =
           st\<lparr>lastHeading := Some title, lastColor := ''#'' @ hex\<rparr>
       \<and> js_match heading_re (''####'' @ rest) = None
       \<and> parse_line i (''####'' @ rest) st = st"
proof -
  note m = js_match_heading3 [OF assms]
  have "parse_line i (''###'' @ ws1 @ title @ ws2 @ ''#'' @ hex @ ws3) st =
           st\<lparr>lastHeading := Some title, lastColor := ''#'' @ hex\<rparr>"
    by (simp only: parse_line_def m option.case)
       (simp add: cap_text_def cap_def trim_id [OF assms(3,4,5)])
  moreover have "parse_line i (''####'' @ rest) st = st"
    by (simp only: parse_line_def four_hashes_no_match option.case)
  ultimately show ?thesis using m four_hashes_no_match(1) by blast
qed

text \<open>The hypotheses of C9 hold for the heading \<^verbatim>\<open>### Sprint 12 #A1b2C3\<close> followed by a space.\<close>

theorem C9_witness:
  "js_match heading_re ''### Sprint 12 #A1b2C3 '' =
           Some [(0, ''### Sprint 12 #A1b2C3 ''), (3, ''#A1b2C3''), (2, ''Sprint 12''), (1, ''###'')]
   \<and> parse_line 4 ''### Sprint 12 #A1b2C3 ''
         \<lparr>lastHeading = Some ''Old'', lastColor = ''#1976D2'', tasks = []\<rparr> =
       \<lparr>lastHeading = Some ''Sprint 12'', lastColor = ''#A1b2C3'', tasks = []\<rparr>
   \<and> js_match heading_re ''#### Deep #A1b2C3'' = None
   \<and> parse_line 4 ''#### Deep #A1b2C3''
         \<lparr>lastHeading = Some ''Old'', lastColor = ''#1976D2'', tasks = []\<rparr> =
       \<lparr>lastHeading = Some ''Old'', lastColor = ''#1976D2'', tasks = []\<rparr>"
proof -
  have h: "'' '' \<noteq> []" "list_all is_space '' ''"
    "''Sprint 12'' \<noteq> []" "\<not> is_space (hd ''Sprint 12'')" "\<not> is_space (last ''Sprint 12'')"
    "list_all is_dot ''Sprint 12''"
    "'' '' \<noteq> []" "list_all is_space '' ''"
    "length ''A1b2C3'' = 6" "list_all is_hex ''A1b2C3''" "list_all is_space '' ''"
    by (simp_all add: is_space_def is_dot_def is_hex_def)
  from C9_heading_levels [OF h, of 4 "\<lparr>lastHeading = Some ''Old'', lastColor = ''#1976D2'', tasks = []\<rparr>"
      "'' Deep #A1b2C3''"]
  show ?thesis by simp
qed

section \<open>Totality and order of the parser\<close>

text \<open>
  Claim C10. \<open>parseTasks\<close> returns a task list for every editor state (the model has
  no failing branch, as the source has none): the empty list when there is no editor
  and for the empty document. The tasks come in document order, with strictly
  increasing line numbers; each line number lies between 1 and the number of lines, the
  \<open>id\<close> is built from it, and the line with that number is not a heading and is the
  task line whose state character and body the task carries.
\<close>

theorem C10_parse_total_ordered:
  "parseTasks None = [] \<and> parseTasks (Some (getLinesContent [])) = [] \<and>
   sorted_wrt (<) (map lineNumber (parseTasks (Some doc))) \<and>
   (\<forall>t\<in>set (parseTasks (Some doc)).
      1 \<le> lineNumber t \<and> lineNumber t \<le> length doc \<and>
      task_id t = ''ln-'' @ decimal (lineNumber t) \<and>
      js_match heading_re (doc ! (lineNumber t - 1)) = None \<and>
      (\<exists>m. js_match task_re (doc ! (lineNumber t - 1)) = Some m \<and>
           status t = status_of (cap m 2) \<and> task_text t = cap_text m 3))"
proof -
  have a: "parseTasks None = []" by (simp add: parseTasks_def)
  have b: "parseTasks (Some (getLinesContent [])) = []" by code_simp
  have c: "1 \<le> lineNumber t \<and> lineNumber t \<le> length doc \<and>
      task_id t = ''ln-'' @ decimal (lineNumber t) \<and>
      js_match heading_re (doc ! (lineNumber t - 1)) = None \<and>
      (\<exists>m. js_match task_re (doc ! (lineNumber t - 1)) = Some m \<and>
           status t = status_of (cap m 2) \<and> task_text t = cap_text m 3)"
    if "t \<in> set (parseTasks (Some doc))" for t
    using parseTasks_from_line [OF that] task_not_heading
    by (auto simp: from_line_def)
  show ?thesis using a b c parseTasks_sorted by blast
qed

text \<open>A three-line document: the task of line 2 is in the result, and C10 applies to it.\<close>

theorem C10_witness:
  "\<lparr>task_id = ''ln-2'', lineNumber = 2, status = ''inprogress'', task_text = ''write report'',
     heading = Some ''Work'', color = ''#1976D2'', tags = [], due = None, start = None,
     priority = None\<rparr> \<in> set (parseTasks (Some [''# Work'', ''  * [/] write report'', ''- [ ] rest'']))
   \<and> sorted_wrt (<) (map lineNumber (parseTasks (Some [''# Work'', ''  * [/] write report'', ''- [ ] rest''])))
   \<and> js_match heading_re ([''# Work'', ''  * [/] write report'', ''- [ ] rest''] ! (2 - 1)) = None"
proof -
  let ?t = "\<lparr>task_id = ''ln-2'', lineNumber = 2, status = ''inprogress'', task_text = ''write report'',
     heading = Some ''Work'', color = ''#1976D2'', tags = [], due = None, start = None,
     priority = None\<rparr>"
  let ?doc = "[''# Work'', ''  * [/] write report'', ''- [ ] rest'']"
  have m: "?t \<in> set (parseTasks (Some ?doc))" by code_simp
  from C10_parse_total_ordered [of ?doc] m
  have "sorted_wrt (<) (map lineNumber (parseTasks (Some ?doc)))"
    and "js_match heading_re (?doc ! (lineNumber ?t - 1)) = None"
    by blast+
  with m show ?thesis by simp
qed

end
